theory Spec2Isabelle
  imports Main "HOL-Library.Word"
begin

unbundle bit_operations_syntax

section \<open>The block request layer (drivers/block/ll\_rw\_blk.c)\<close>

subsection \<open>Directions, wait queues\<close>

text \<open>
  The direction \<open>rw\<close> indexes the two-element arrays \<open>count[2]\<close>, \<open>wait[2]\<close> and
  \<open>congestion_wqh[2]\<close>; its two values are \<open>READ\<close> (0) and \<open>WRITE\<close> (1).
\<close>

datatype dir = READ | WRITE

text \<open>
  A wait queue is the list of its entries, head first. An entry records the waiting task
  and the \<open>WQ_FLAG_EXCLUSIVE\<close> flag that \<open>prepare_to_wait_exclusive\<close> sets and
  \<open>prepare_to_wait\<close> clears (kernel/fork.c).
\<close>

record wait_queue_t =
  task :: nat
  exclusive :: bool

type_synonym wait_queue_head_t = "wait_queue_t list"

definition waitqueue_active :: "wait_queue_head_t \<Rightarrow> bool" where
  "waitqueue_active wqh = (wqh \<noteq> [])"

text \<open>
  Modelled from the spec: the scheduler's \<open>wake_up\<close> (kernel/sched.c) is missing from the
  sources. Section 4.2 says a freed slot "wakes one waiter": the walk wakes the entries
  from the head and stops after the first exclusive one. The entries are those of
  \<open>DEFINE_WAIT\<close>, whose wake function \<open>autoremove_wake_function\<close> (kernel/fork.c)
  takes a woken entry off the queue. The result is the tasks woken and the queue left.
\<close>

fun wake_up :: "wait_queue_head_t \<Rightarrow> nat list \<times> wait_queue_head_t" where
  "wake_up [] = ([], [])"
| "wake_up (w # ws) =
     (if exclusive w then ([task w], ws)
      else (case wake_up ws of (ts, rest) \<Rightarrow> (task w # ts, rest)))"

subsection \<open>Bios and requests\<close>

text \<open>
  The fields of \<open>struct bio\<close> that the merge code reads. \<open>bi_phys_segments\<close> and
  \<open>bi_hw_segments\<close> hold the segment counts (valid, as after
  \<open>blk_recount_segments\<close>).
\<close>

record bio =
  bi_sector :: nat
  bi_size :: nat
  bi_phys_segments :: nat
  bi_hw_segments :: nat

datatype rq_status_t = RQ_INACTIVE | RQ_ACTIVE

text \<open>
  The fields of \<open>struct request\<close> used below. The chain \<open>bio\<close> .. \<open>biotail\<close>, linked
  through \<open>bi_next\<close>, is the list \<open>bios\<close>: \<open>bio\<close> is its head and \<open>biotail\<close> its last
  element. The pointers \<open>q\<close> and \<open>rl\<close> are only tested against \<open>NULL\<close>, so they are
  booleans (\<open>True\<close> for a set pointer); \<open>waiting\<close>, \<open>special\<close> and \<open>rq_disk\<close> are
  optional handles. \<open>tag\<close> is an \<open>int\<close> with \<open>-1\<close> for no tag.
\<close>

record request =
  flags :: "32 word"
  rq_status :: rq_status_t
  errors :: int
  sector :: nat
  nr_sectors :: nat
  hard_nr_sectors :: nat
  nr_phys_segments :: nat
  nr_hw_segments :: nat
  bios :: "bio list"
  ref_count :: int
  tag :: int
  rq_disk :: "nat option"
  rq_q :: bool
  rl :: bool
  waiting :: "nat option"
  special :: "nat option"

text \<open>
  Bit numbers of \<open>rq->flags\<close>, in the order of the table \<open>rq_flags[]\<close>.
\<close>

definition REQ_RW_bit :: nat where "REQ_RW_bit = 0"
definition REQ_FAILFAST_bit :: nat where "REQ_FAILFAST_bit = 1"
definition REQ_SOFTBARRIER_bit :: nat where "REQ_SOFTBARRIER_bit = 2"
definition REQ_HARDBARRIER_bit :: nat where "REQ_HARDBARRIER_bit = 3"
definition REQ_CMD_bit :: nat where "REQ_CMD_bit = 4"
definition REQ_NOMERGE_bit :: nat where "REQ_NOMERGE_bit = 5"
definition REQ_STARTED_bit :: nat where "REQ_STARTED_bit = 6"
definition REQ_DONTPREP_bit :: nat where "REQ_DONTPREP_bit = 7"
definition REQ_QUEUED_bit :: nat where "REQ_QUEUED_bit = 8"

definition rq_data_dir :: "request \<Rightarrow> dir" where
  "rq_data_dir r = (if bit (flags r) REQ_RW_bit then WRITE else READ)"

definition dir_flags :: "dir \<Rightarrow> 32 word" where
  "dir_flags d = (case d of READ \<Rightarrow> 0 | WRITE \<Rightarrow> 1)"

subsection \<open>The queue\<close>

text \<open>
  Tag maintenance (\<open>struct blk_queue_tag\<close>): the bitmap \<open>tag_map\<close> is an array of
  32-bit words (\<open>BITS_PER_LONG\<close> is 32 in asm-i386/types.h), \<open>tag_index\<close> maps a tag to
  the request holding it, \<open>busy_list\<close> chains the tagged requests, head first.
\<close>

record blk_queue_tag =
  tag_index :: "nat option list"
  tag_map :: "32 word list"
  busy_list :: "nat list"
  busy :: int
  max_depth :: int
  real_max_depth :: int

text \<open>
  The state the functions below work on: one request queue, the requests it refers to,
  and the global congestion wait queues. Requests are addressed by a handle (a \<open>nat\<close>)
  into the store \<open>rqs\<close>; \<open>queue_head\<close> is the pending list in order. \<open>count\<close> and
  \<open>wait\<close> are the arrays of \<open>q->rq\<close>. The per-direction bits of
  \<open>q->backing_dev_info.state\<close> (\<open>BDI_read_congested\<close>, \<open>BDI_write_congested\<close>) and of
  \<open>q->queue_flags\<close> (\<open>QUEUE_FLAG_READFULL\<close>, \<open>QUEUE_FLAG_WRITEFULL\<close>) are functions
  of the direction, \<open>QUEUE_FLAG_CLUSTER\<close> is \<open>cluster\<close>; their bit numbers are declared
  in headers that are not among the sources. \<open>woken\<close> is the trace of the tasks woken,
  oldest first. \<open>nr_requests\<close> is an \<open>unsigned long\<close> (\<open>queue_var_store\<close> writes it
  through an \<open>unsigned long *\<close>) and the counts are \<open>int\<close>s, both of 32 bits; the fields
  hold their values as integers, and the functions below convert them where the C code does.
\<close>

record request_queue =
  nr_requests :: int
  count :: "dir \<Rightarrow> int"
  wait :: "dir \<Rightarrow> wait_queue_head_t"
  congested :: "dir \<Rightarrow> bool"
  full :: "dir \<Rightarrow> bool"
  cluster :: bool
  max_sectors :: nat
  max_phys_segments :: nat
  max_hw_segments :: nat
  max_segment_size :: nat
  last_merge :: "nat option"
  queue_head :: "nat list"
  queue_tags :: "blk_queue_tag option"
  rqs :: "nat \<rightharpoonup> request"
  congestion_wqh :: "dir \<Rightarrow> wait_queue_head_t"
  woken :: "nat list"

subsection \<open>Congestion thresholds\<close>

text \<open>
  C's conversion of an integer to \<open>unsigned long\<close>, a word of 32 bits; \<open>sint\<close> is the
  conversion of such a word to \<open>int\<close>. An expression with an \<open>unsigned long\<close> operand is
  computed on the words and wraps around, and a comparison of an \<open>int\<close> with an
  \<open>unsigned long\<close> compares the words.
\<close>

definition ulong :: "int \<Rightarrow> 32 word" where
  "ulong x = word_of_int x"

text \<open>
  Both thresholds are computed in \<open>unsigned long\<close> and stored in the \<open>int ret\<close>. The
  on-threshold compares \<open>ret\<close> with \<open>nr_requests\<close> as \<open>unsigned long\<close>, the
  off-threshold compares it with 1 as \<open>int\<close>.
\<close>

definition queue_congestion_on_threshold :: "request_queue \<Rightarrow> int" where
  "queue_congestion_on_threshold q =
     (let n = ulong (nr_requests q);
          ret = sint (n - n div 8 + 1)
      in if ulong ret > n then sint n else ret)"

definition queue_congestion_off_threshold :: "request_queue \<Rightarrow> int" where
  "queue_congestion_off_threshold q =
     (let n = ulong (nr_requests q);
          ret = sint (n - n div 8 - 1)
      in if ret < 1 then 1 else ret)"

definition clear_queue_congested :: "request_queue \<Rightarrow> dir \<Rightarrow> request_queue" where
  "clear_queue_congested q rw =
     (let q1 = q\<lparr>congested := (congested q)(rw := False)\<rparr>
      in if waitqueue_active (congestion_wqh q1 rw)
         then (case wake_up (congestion_wqh q1 rw) of
                 (ts, rest) \<Rightarrow> q1\<lparr>congestion_wqh := (congestion_wqh q1)(rw := rest),
                                   woken := woken q1 @ ts\<rparr>)
         else q1)"

definition set_queue_congested :: "request_queue \<Rightarrow> dir \<Rightarrow> request_queue" where
  "set_queue_congested q rw = q\<lparr>congested := (congested q)(rw := True)\<rparr>"

definition blk_queue_full :: "request_queue \<Rightarrow> dir \<Rightarrow> bool" where
  "blk_queue_full q rw = full q rw"

definition blk_set_queue_full :: "request_queue \<Rightarrow> dir \<Rightarrow> request_queue" where
  "blk_set_queue_full q rw = q\<lparr>full := (full q)(rw := True)\<rparr>"

definition blk_clear_queue_full :: "request_queue \<Rightarrow> dir \<Rightarrow> request_queue" where
  "blk_clear_queue_full q rw = q\<lparr>full := (full q)(rw := False)\<rparr>"

subsection \<open>Batching\<close>

text \<open>
  \<open>struct io_context\<close>: the batching token of a process. \<open>jiffies\<close> and \<open>last_waited\<close>
  are \<open>unsigned long\<close>. The macro \<open>time_before\<close> (linux/jiffies.h) and \<open>HZ\<close>
  (asm/param.h) are not among the sources: they are the parameters \<open>tb\<close> and \<open>hz\<close>.
\<close>

record io_context =
  nr_batch_requests :: int
  last_waited :: "32 word"

definition BLK_BATCH_REQ :: int where
  "BLK_BATCH_REQ = 32"

definition BLK_BATCH_TIME :: "nat \<Rightarrow> 32 word" where
  "BLK_BATCH_TIME hz = of_nat (hz div 50)"

record clock =
  HZ :: nat
  jiffies :: "32 word"
  time_before :: "32 word \<Rightarrow> 32 word \<Rightarrow> bool"

definition ioc_batching :: "clock \<Rightarrow> io_context option \<Rightarrow> bool" where
  "ioc_batching clk ioc =
     (case ioc of
        None \<Rightarrow> False
      | Some c \<Rightarrow>
          nr_batch_requests c = BLK_BATCH_REQ \<or>
          (nr_batch_requests c > 0 \<and>
           time_before clk (jiffies clk) (last_waited c + BLK_BATCH_TIME (HZ clk))))"

definition ioc_set_batching :: "clock \<Rightarrow> io_context option \<Rightarrow> io_context option" where
  "ioc_set_batching clk ioc =
     (if ioc = None \<or> ioc_batching clk ioc then ioc
      else map_option (\<lambda>c. c\<lparr>nr_batch_requests := BLK_BATCH_REQ,
                                last_waited := jiffies clk\<rparr>) ioc)"

subsection \<open>Allocating and freeing a request\<close>

text \<open>
  \<open>blk_alloc_request\<close>: \<open>pool\<close> is what \<open>mempool_alloc\<close> returns (\<open>None\<close> for
  \<open>NULL\<close>), \<open>elv_set\<close> what the elevator's \<open>elv_set_request\<close> returns (0 for success).
\<close>

definition blk_alloc_request :: "request option \<Rightarrow> int \<Rightarrow> request option" where
  "blk_alloc_request pool elv_set =
     (case pool of
        None \<Rightarrow> None
      | Some r \<Rightarrow> if \<not> (elv_set \<noteq> 0) then Some r else None)"

text \<open>
  \<open>freed_request\<close>. The count is compared with the off-threshold as \<open>int\<close>, and the count
  plus one with \<open>nr_requests\<close> as \<open>unsigned long\<close>.
\<close>

definition freed_request :: "request_queue \<Rightarrow> dir \<Rightarrow> request_queue" where
  "freed_request q rw =
     (let q1 = q\<lparr>count := (count q)(rw := count q rw - 1)\<rparr>;
          q2 = (if count q1 rw < queue_congestion_off_threshold q1
                then clear_queue_congested q1 rw else q1)
      in if ulong (count q2 rw + 1) \<le> ulong (nr_requests q2)
         then (let q3 = (if waitqueue_active (wait q2 rw)
                         then (case wake_up (wait q2 rw) of
                                 (ts, rest) \<Rightarrow> q2\<lparr>wait := (wait q2)(rw := rest),
                                                   woken := woken q2 @ ts\<rparr>)
                         else q2)
               in if \<not> waitqueue_active (wait q3 rw)
                  then blk_clear_queue_full q3 rw else q3)
         else q2)"

text \<open>
  \<open>get_request\<close>. \<open>ioc\<close> is the caller's io context as \<open>get_io_context\<close> returns it
  (\<open>None\<close> for \<open>NULL\<close>), \<open>may_queue\<close> the answer of the elevator's \<open>elv_may_queue\<close>,
  \<open>pool\<close> and \<open>elv_set\<close> the inputs of \<open>blk_alloc_request\<close>. The result is the request
  (\<open>None\<close> for \<open>NULL\<close>), the queue and the io context. The count plus one is compared
  with \<open>nr_requests\<close> as \<open>unsigned long\<close>, the count with the on-threshold as \<open>int\<close>.
\<close>

definition get_request ::
  "clock \<Rightarrow> request_queue \<Rightarrow> dir \<Rightarrow> io_context option \<Rightarrow> bool \<Rightarrow> request option \<Rightarrow> int
     \<Rightarrow> request option \<times> request_queue \<times> io_context option" where
  "get_request clk q rw ioc may_queue pool elv_set =
     (let (q1, ioc1) =
            (if ulong (count q rw + 1) \<ge> ulong (nr_requests q) \<and> \<not> blk_queue_full q rw
             then (blk_set_queue_full q rw, ioc_set_batching clk ioc)
             else (q, ioc))
      in if blk_queue_full q1 rw \<and> \<not> ioc_batching clk ioc1 \<and> \<not> may_queue
         then (None, q1, ioc1)
         else
           (let q2 = q1\<lparr>count := (count q1)(rw := count q1 rw + 1)\<rparr>;
                q3 = (if count q2 rw \<ge> queue_congestion_on_threshold q2
                      then set_queue_congested q2 rw else q2)
            in case blk_alloc_request pool elv_set of
                 None \<Rightarrow> (None, freed_request q3 rw, ioc1)
               | Some r \<Rightarrow>
                   (let ioc2 = (if ioc_batching clk ioc1
                                then map_option
                                  (\<lambda>c. c\<lparr>nr_batch_requests := nr_batch_requests c - 1\<rparr>) ioc1
                                else ioc1)
                    in (Some (r\<lparr>flags := dir_flags rw, errors := 0, rq_status := RQ_ACTIVE,
                                bios := [], ref_count := 1, rq_q := True, rl := True,
                                waiting := None, special := None\<rparr>),
                        q3, ioc2))))"

text \<open>
  Consecutive calls of \<open>get_request\<close> by one process, one for each clock reading of the
  list, each with a pool allocation that succeeds (\<open>mempool_alloc\<close> returns \<open>r\<close>,
  \<open>elv_set_request\<close> returns 0). The results are listed in the order of the calls.
\<close>

fun get_requests ::
  "clock list \<Rightarrow> request_queue \<Rightarrow> dir \<Rightarrow> io_context option \<Rightarrow> bool \<Rightarrow> request
     \<Rightarrow> request option list \<times> request_queue \<times> io_context option" where
  "get_requests [] q rw ioc may_queue r = ([], q, ioc)"
| "get_requests (clk # clks) q rw ioc may_queue r =
     (case get_request clk q rw ioc may_queue (Some r) 0 of
        (res, q', ioc') \<Rightarrow>
          (case get_requests clks q' rw ioc' may_queue r of
             (rs, q'', ioc'') \<Rightarrow> (res # rs, q'', ioc'')))"

subsection \<open>Faults\<close>

text \<open>
  The ways the C code stops instead of returning: \<open>BUG()\<close> and \<open>BUG_ON\<close>, a dereference
  of \<open>NULL\<close>, an array access out of bounds, and linking a list node that is still on a
  list.
\<close>

datatype fault = BUG | NULL_POINTER | OUT_OF_BOUNDS | LIST_CORRUPTION

subsection \<open>Request flags\<close>

definition REQ_SOFTBARRIER :: "32 word" where "REQ_SOFTBARRIER = push_bit REQ_SOFTBARRIER_bit 1"
definition REQ_HARDBARRIER :: "32 word" where "REQ_HARDBARRIER = push_bit REQ_HARDBARRIER_bit 1"
definition REQ_CMD :: "32 word" where "REQ_CMD = push_bit REQ_CMD_bit 1"
definition REQ_NOMERGE :: "32 word" where "REQ_NOMERGE = push_bit REQ_NOMERGE_bit 1"
definition REQ_STARTED :: "32 word" where "REQ_STARTED = push_bit REQ_STARTED_bit 1"
definition REQ_QUEUED :: "32 word" where "REQ_QUEUED = push_bit REQ_QUEUED_bit 1"

text \<open>
  Modelled from the spec: the macros \<open>rq_mergeable\<close>, \<open>blk_fs_request\<close> and
  \<open>RQ_NOMERGE_FLAGS\<close> are declared in linux/blkdev.h, which is missing from the sources.
  By the data model (section 3) a request carries the flags command kind, barrier, no-merge
  and started, and a started request "must not be re-merged" (section 4.4): a request is
  mergeable when it is a filesystem command and none of no-merge, started and the two
  barrier flags is set.
\<close>

definition RQ_NOMERGE_FLAGS :: "32 word" where
  "RQ_NOMERGE_FLAGS = REQ_NOMERGE OR REQ_STARTED OR REQ_HARDBARRIER OR REQ_SOFTBARRIER"

definition blk_fs_request :: "request \<Rightarrow> bool" where
  "blk_fs_request r = (flags r AND REQ_CMD \<noteq> 0)"

definition rq_mergeable :: "request \<Rightarrow> bool" where
  "rq_mergeable r = (\<not> (flags r AND RQ_NOMERGE_FLAGS \<noteq> 0) \<and> blk_fs_request r)"

subsection \<open>Segment accounting and the merge functions\<close>

text \<open>
  Modelled from the spec: \<open>bio_sectors\<close>, \<open>bio_phys_segments\<close> and \<open>bio_hw_segments\<close>
  are declared in linux/bio.h and fs/bio.c, which are missing from the sources. A bio's
  sector count is its size in 512-byte sectors (as in \<open>submit_bh\<close>, which computes a sector
  from \<open>b_size >> 9\<close>), its segment counts are the ones recorded in it.
\<close>

definition bio_sectors :: "bio \<Rightarrow> nat" where
  "bio_sectors b = drop_bit 9 (bi_size b)"

definition bio_phys_segments :: "request_queue \<Rightarrow> bio \<Rightarrow> nat" where
  "bio_phys_segments q b = bi_phys_segments b"

definition bio_hw_segments :: "request_queue \<Rightarrow> bio \<Rightarrow> nat" where
  "bio_hw_segments q b = bi_hw_segments b"

text \<open>
  The macros on bio vectors (linux/bio.h and the architecture's asm/io.h) are missing from
  the sources and are parameters: \<open>BIOVEC_VIRT_MERGEABLE a b\<close> stands for
  \<open>BIOVEC_VIRT_MERGEABLE(__BVEC_END(a), __BVEC_START(b))\<close>, likewise
  \<open>BIOVEC_PHYS_MERGEABLE\<close>, and \<open>BIO_SEG_BOUNDARY a b\<close> for \<open>BIO_SEG_BOUNDARY(q, a, b)\<close>.
\<close>

record bvec_macros =
  BIOVEC_VIRT_MERGEABLE :: "bio \<Rightarrow> bio \<Rightarrow> bool"
  BIOVEC_PHYS_MERGEABLE :: "bio \<Rightarrow> bio \<Rightarrow> bool"
  BIO_SEG_BOUNDARY :: "bio \<Rightarrow> bio \<Rightarrow> bool"

text \<open>The conversion of an \<open>int\<close> to the \<open>unsigned short\<close> of a segment counter.\<close>

definition ushort :: "int \<Rightarrow> nat" where
  "ushort x = nat (x mod 65536)"

text \<open>\<open>req->bio\<close> and \<open>req->biotail\<close>, \<open>None\<close> for \<open>NULL\<close>.\<close>

definition rq_bio :: "request \<Rightarrow> bio option" where
  "rq_bio r = (case bios r of [] \<Rightarrow> None | b # _ \<Rightarrow> Some b)"

definition biotail :: "request \<Rightarrow> bio option" where
  "biotail r = (if bios r = [] then None else Some (last (bios r)))"

definition blk_phys_contig_segment ::
  "bvec_macros \<Rightarrow> request_queue \<Rightarrow> bio option \<Rightarrow> bio option \<Rightarrow> fault + bool" where
  "blk_phys_contig_segment mac q b nxt =
     (if \<not> cluster q then Inr False
      else (case (b, nxt) of
              (Some b', Some n') \<Rightarrow>
                if \<not> BIOVEC_PHYS_MERGEABLE mac b' n' then Inr False
                else if bi_size b' + bi_size n' > max_segment_size q then Inr False
                else if BIO_SEG_BOUNDARY mac b' n' then Inr True
                else Inr False
            | _ \<Rightarrow> Inl NULL_POINTER))"

definition blk_hw_contig_segment ::
  "bvec_macros \<Rightarrow> request_queue \<Rightarrow> bio option \<Rightarrow> bio option \<Rightarrow> fault + bool" where
  "blk_hw_contig_segment mac q b nxt =
     (if \<not> cluster q then Inr False
      else (case (b, nxt) of
              (Some b', Some n') \<Rightarrow>
                if \<not> BIOVEC_VIRT_MERGEABLE mac b' n' then Inr False
                else if bi_size b' + bi_size n' > max_segment_size q then Inr False
                else if BIO_SEG_BOUNDARY mac b' n' then Inr True
                else Inr False
            | _ \<Rightarrow> Inl NULL_POINTER))"

text \<open>
  The merge functions work on the request and the queue they are given and return the
  status (1 for a merge that may go ahead, 0 for a rejection) with both. \<open>nr_sectors\<close> is
  an \<open>unsigned long\<close>: the sum of the sector counts in \<open>ll_back_merge_fn\<close> and
  \<open>ll_front_merge_fn\<close> is a sum of 32 bits and wraps around at \<open>2 ^ 32\<close>. The segment
  counters are \<open>unsigned short\<close> and their sums are sums of \<open>int\<close>s.
\<close>

definition ll_new_mergeable ::
  "request_queue \<Rightarrow> request \<Rightarrow> bio \<Rightarrow> int \<times> request \<times> request_queue" where
  "ll_new_mergeable q req b =
     (let nr_phys_segs = bio_phys_segments q b
      in if nr_phys_segments req + nr_phys_segs > max_phys_segments q
         then (0, req\<lparr>flags := flags req OR REQ_NOMERGE\<rparr>, q\<lparr>last_merge := None\<rparr>)
         else (1, req\<lparr>nr_phys_segments :=
                        ushort (int (nr_phys_segments req) + int nr_phys_segs)\<rparr>, q))"

definition ll_new_hw_segment ::
  "request_queue \<Rightarrow> request \<Rightarrow> bio \<Rightarrow> int \<times> request \<times> request_queue" where
  "ll_new_hw_segment q req b =
     (let nr_hw_segs = bio_hw_segments q b;
          nr_phys_segs = bio_phys_segments q b
      in if nr_hw_segments req + nr_hw_segs > max_hw_segments q
            \<or> nr_phys_segments req + nr_phys_segs > max_phys_segments q
         then (0, req\<lparr>flags := flags req OR REQ_NOMERGE\<rparr>, q\<lparr>last_merge := None\<rparr>)
         else (1, req\<lparr>nr_hw_segments := ushort (int (nr_hw_segments req) + int nr_hw_segs),
                       nr_phys_segments :=
                         ushort (int (nr_phys_segments req) + int nr_phys_segs)\<rparr>, q))"

definition ll_back_merge_fn ::
  "bvec_macros \<Rightarrow> request_queue \<Rightarrow> request \<Rightarrow> bio
     \<Rightarrow> fault + (int \<times> request \<times> request_queue)" where
  "ll_back_merge_fn mac q req b =
     (if (nr_sectors req + bio_sectors b) mod 2 ^ 32 > max_sectors q
      then Inr (0, req\<lparr>flags := flags req OR REQ_NOMERGE\<rparr>, q\<lparr>last_merge := None\<rparr>)
      else (case biotail req of
              None \<Rightarrow> Inl NULL_POINTER
            | Some t \<Rightarrow>
                if BIOVEC_VIRT_MERGEABLE mac t b then Inr (ll_new_mergeable q req b)
                else Inr (ll_new_hw_segment q req b)))"

definition ll_front_merge_fn ::
  "bvec_macros \<Rightarrow> request_queue \<Rightarrow> request \<Rightarrow> bio
     \<Rightarrow> fault + (int \<times> request \<times> request_queue)" where
  "ll_front_merge_fn mac q req b =
     (if (nr_sectors req + bio_sectors b) mod 2 ^ 32 > max_sectors q
      then Inr (0, req\<lparr>flags := flags req OR REQ_NOMERGE\<rparr>, q\<lparr>last_merge := None\<rparr>)
      else (case rq_bio req of
              None \<Rightarrow> Inl NULL_POINTER
            | Some h \<Rightarrow>
                if BIOVEC_VIRT_MERGEABLE mac b h then Inr (ll_new_mergeable q req b)
                else Inr (ll_new_hw_segment q req b)))"

definition ll_merge_requests_fn ::
  "bvec_macros \<Rightarrow> request_queue \<Rightarrow> request \<Rightarrow> request \<Rightarrow> fault + (int \<times> request)" where
  "ll_merge_requests_fn mac q req nxt =
     (if special req \<noteq> None \<or> special nxt \<noteq> None then Inr (0, req)
      else if nr_sectors req + nr_sectors nxt > max_sectors q then Inr (0, req)
      else
        (case blk_phys_contig_segment mac q (biotail req) (rq_bio nxt) of
           Inl f \<Rightarrow> Inl f
         | Inr pc \<Rightarrow>
             (let total_phys_segments =
                    int (nr_phys_segments req) + int (nr_phys_segments nxt)
                      - (if pc then 1 else 0)
              in if total_phys_segments > int (max_phys_segments q) then Inr (0, req)
                 else
                   (case blk_hw_contig_segment mac q (biotail req) (rq_bio nxt) of
                      Inl f \<Rightarrow> Inl f
                    | Inr hc \<Rightarrow>
                        (let total_hw_segments =
                               int (nr_hw_segments req) + int (nr_hw_segments nxt)
                                 - (if hc then 1 else 0)
                         in if total_hw_segments > int (max_hw_segments q) then Inr (0, req)
                            else Inr (1, req\<lparr>nr_phys_segments := ushort total_phys_segments,
                                              nr_hw_segments := ushort total_hw_segments\<rparr>))))))"

subsection \<open>Releasing a request, merging two requests\<close>

text \<open>
  \<open>list_empty(&rq->queuelist)\<close> is false when the request is linked into the pending list
  or into the busy list of the tags.
\<close>

definition on_list :: "request_queue \<Rightarrow> nat \<Rightarrow> bool" where
  "on_list q p =
     (p \<in> set (queue_head q) \<or>
      (case queue_tags q of None \<Rightarrow> False | Some bqt \<Rightarrow> p \<in> set (busy_list bqt)))"

text \<open>
  \<open>__blk_put_request\<close>, for the queue the request belongs to (\<open>q\<close> is not \<open>NULL\<close>). The
  elevator's \<open>elv_completed_request\<close> and \<open>elv_put_request\<close> keep their own data only.
  \<open>mempool_free\<close> takes the request out of the store.
\<close>

definition locked_blk_put_request :: "request_queue \<Rightarrow> nat \<Rightarrow> fault + request_queue" where
  "locked_blk_put_request q p =
     (case rqs q p of
        None \<Rightarrow> Inl NULL_POINTER
      | Some req \<Rightarrow>
          (let req1 = req\<lparr>ref_count := ref_count req - 1\<rparr>
           in if ref_count req1 \<noteq> 0 then Inr (q\<lparr>rqs := (rqs q)(p \<mapsto> req1)\<rparr>)
              else
                (let req2 = req1\<lparr>rq_status := RQ_INACTIVE, rq_q := False, rl := False\<rparr>
                 in if rl req
                    then (if on_list q p then Inl BUG
                          else Inr (freed_request (q\<lparr>rqs := (rqs q)(p := None)\<rparr>)
                                      (rq_data_dir req2)))
                    else Inr (q\<lparr>rqs := (rqs q)(p \<mapsto> req2)\<rparr>))))"

text \<open>
  Modelled from the spec: \<open>elv_merge_requests\<close> (drivers/block/elevator.c) is missing from
  the sources. Coalescing "releases one Request outright" (section 4.3): the elevator takes
  \<open>next\<close> off the pending list, and the merge hint no longer points to it.
\<close>

definition elv_merge_requests :: "request_queue \<Rightarrow> nat \<Rightarrow> nat \<Rightarrow> request_queue" where
  "elv_merge_requests q p nxt =
     q\<lparr>last_merge := (if last_merge q = Some nxt then None else last_merge q),
       queue_head := removeAll nxt (queue_head q)\<rparr>"

text \<open>
  \<open>attempt_merge\<close>, with \<open>ll_merge_requests_fn\<close> as the queue's \<open>merge_requests_fn\<close>
  (the one \<open>blk_init_queue\<close> installs). Linking \<open>next->bio\<close> behind
  \<open>req->biotail\<close> and taking over \<open>next->biotail\<close> appends the chain of \<open>next\<close>. The
  per-disk statistics (\<open>disk_round_stats\<close>, \<open>in_flight\<close>) are not part of the state.
\<close>

definition attempt_merge ::
  "bvec_macros \<Rightarrow> request_queue \<Rightarrow> nat \<Rightarrow> nat \<Rightarrow> fault + (int \<times> request_queue)" where
  "attempt_merge mac q p np =
     (case (rqs q p, rqs q np) of
        (Some req, Some nxt) \<Rightarrow>
          if \<not> rq_mergeable req \<or> \<not> rq_mergeable nxt then Inr (0, q)
          else if sector req + nr_sectors req \<noteq> sector nxt then Inr (0, q)
          else if rq_data_dir req \<noteq> rq_data_dir nxt \<or> rq_disk req \<noteq> rq_disk nxt
                  \<or> waiting nxt \<noteq> None \<or> special nxt \<noteq> None then Inr (0, q)
          else
            (case ll_merge_requests_fn mac q req nxt of
               Inl f \<Rightarrow> Inl f
             | Inr (ret, req1) \<Rightarrow>
                 if ret = 0 then Inr (0, q)
                 else if biotail req1 = None then Inl NULL_POINTER
                 else
                   (let hard = hard_nr_sectors req1 + hard_nr_sectors nxt;
                        req2 = req1\<lparr>bios := bios req1 @ bios nxt,
                                    hard_nr_sectors := hard, nr_sectors := hard\<rparr>;
                        q1 = elv_merge_requests (q\<lparr>rqs := (rqs q)(p \<mapsto> req2)\<rparr>) p np
                    in (case locked_blk_put_request q1 np of
                          Inl f \<Rightarrow> Inl f
                        | Inr q2 \<Rightarrow> Inr (1, q2))))
      | _ \<Rightarrow> Inl NULL_POINTER)"

subsection \<open>Tagged command queueing\<close>

text \<open>
  The tag bitmap is an array of \<open>unsigned long\<close>: bit \<open>i\<close> is bit \<open>i mod 32\<close> of word
  \<open>i div 32\<close>. These are \<open>test_bit\<close>, \<open>__set_bit\<close> and the clearing half of
  \<open>__test_and_clear_bit\<close>; the callers check that the word index is inside the array.
\<close>

definition bitmap_test_bit :: "nat \<Rightarrow> 32 word list \<Rightarrow> bool" where
  "bitmap_test_bit i m = bit (m ! (i div 32)) (i mod 32)"

definition bitmap_set_bit :: "nat \<Rightarrow> 32 word list \<Rightarrow> 32 word list" where
  "bitmap_set_bit i m = m[i div 32 := set_bit (i mod 32) (m ! (i div 32))]"

definition bitmap_clear_bit :: "nat \<Rightarrow> 32 word list \<Rightarrow> 32 word list" where
  "bitmap_clear_bit i m = m[i div 32 := unset_bit (i mod 32) (m ! (i div 32))]"

text \<open>
  Modelled from the spec: \<open>ffz\<close> (asm/bitops.h) is missing from the sources. Starting a tag
  scans "for the first clear bit" (section 4.4): \<open>ffz w\<close> is the number of the lowest clear
  bit of \<open>w\<close>. It is 32 for the word without a clear bit, on which the C function is
  undefined and which the caller excludes.
\<close>

definition ffz :: "32 word \<Rightarrow> nat" where
  "ffz w = length (takeWhile (bit w) [0..<32])"

text \<open>
  \<open>init_tag_map\<close>: \<open>index_ok\<close> and \<open>map_ok\<close> tell whether the two \<open>kmalloc\<close> calls
  return memory. The result is the error \<open>-ENOMEM\<close> or the initialised tag structure.
  The \<open>int depth\<close> is compared with \<open>nr_requests * 2\<close> as \<open>unsigned long\<close>, the product
  wrapping around, and the adjusted depth is that product stored in the \<open>int\<close>. The sizes
  and the bitmap are those of the code for a depth that is not negative.
\<close>

datatype errno = ENOMEM

definition init_tag_map ::
  "request_queue \<Rightarrow> int \<Rightarrow> bool \<Rightarrow> bool \<Rightarrow> errno + blk_queue_tag" where
  "init_tag_map q depth index_ok map_ok =
     (let depth = (if ulong depth > ulong (nr_requests q) * 2
                   then sint (ulong (nr_requests q) * 2) else depth)
      in if \<not> index_ok then Inl ENOMEM
         else
           (let bits = depth div 32 + 1
            in if \<not> map_ok then Inl ENOMEM
               else Inr \<lparr>tag_index = replicate (nat depth) None,
                         tag_map = fold bitmap_set_bit [nat depth ..< nat (bits * 32)]
                                     (replicate (nat bits) 0),
                         busy_list = [], busy = 0,
                         max_depth = depth, real_max_depth = bits * 32\<rparr>))"

text \<open>
  \<open>blk_queue_init_tags\<close> for a queue that gets a tag structure of its own (\<open>tags\<close> is
  \<open>NULL\<close>): \<open>tags_ok\<close> tells whether the \<open>kmalloc\<close> of the structure returns memory.
\<close>

definition blk_queue_init_tags ::
  "request_queue \<Rightarrow> int \<Rightarrow> bool \<Rightarrow> bool \<Rightarrow> bool \<Rightarrow> errno + request_queue" where
  "blk_queue_init_tags q depth tags_ok index_ok map_ok =
     (if \<not> tags_ok then Inl ENOMEM
      else (case init_tag_map q depth index_ok map_ok of
              Inl e \<Rightarrow> Inl ENOMEM
            | Inr tags \<Rightarrow> Inr (q\<lparr>queue_tags := Some tags\<rparr>)))"

text \<open>
  The scan of \<open>blk_queue_start_tag\<close> over the words of the bitmap: \<open>Inr None\<close> when it
  gives up (the function returns 1), the tag found otherwise, and a fault when the scan
  runs past the end of the array.
\<close>

fun start_tag_scan :: "32 word list \<Rightarrow> int \<Rightarrow> int \<Rightarrow> fault + int option" where
  "start_tag_scan [] t md = Inl OUT_OF_BOUNDS"
| "start_tag_scan (w # ws) t md =
     (if w = - 1
      then (if t + 32 \<ge> md then Inr None else start_tag_scan ws (t + 32) md)
      else Inr (Some (t + int (ffz w))))"

text \<open>
  Modelled from the spec: \<open>blkdev_dequeue_request\<close> (linux/blkdev.h) is missing from the
  sources. Starting a tag must "remove the Request from the ordered queue list"
  (section 4.4).
\<close>

definition blkdev_dequeue_request :: "request_queue \<Rightarrow> nat \<Rightarrow> request_queue" where
  "blkdev_dequeue_request q p = q\<lparr>queue_head := removeAll p (queue_head q)\<rparr>"

definition blk_queue_start_tag :: "request_queue \<Rightarrow> nat \<Rightarrow> fault + (int \<times> request_queue)" where
  "blk_queue_start_tag q p =
     (case queue_tags q of
        None \<Rightarrow> Inl NULL_POINTER
      | Some bqt \<Rightarrow>
          (case rqs q p of
             None \<Rightarrow> Inl NULL_POINTER
           | Some rq \<Rightarrow>
               if flags rq AND REQ_QUEUED \<noteq> 0 then Inl BUG
               else
                 (case start_tag_scan (tag_map bqt) 0 (max_depth bqt) of
                    Inl f \<Rightarrow> Inl f
                  | Inr None \<Rightarrow> Inr (1, q)
                  | Inr (Some t) \<Rightarrow>
                      if \<not> nat t div 32 < length (tag_map bqt) \<or>
                         \<not> nat t < length (tag_index bqt)
                      then Inl OUT_OF_BOUNDS
                      else
                        (let rq1 = rq\<lparr>flags := flags rq OR REQ_QUEUED, tag := t\<rparr>;
                             bqt1 = bqt\<lparr>tag_map := bitmap_set_bit (nat t) (tag_map bqt),
                                        tag_index := (tag_index bqt)[nat t := Some p]\<rparr>;
                             q1 = blkdev_dequeue_request (q\<lparr>rqs := (rqs q)(p \<mapsto> rq1)\<rparr>) p
                         in Inr (0, q1\<lparr>queue_tags :=
                                        Some (bqt1\<lparr>busy_list := p # busy_list bqt1,
                                                    busy := busy bqt1 + 1\<rparr>)\<rparr>)))))"

text \<open>
  \<open>blk_queue_end_tag\<close>. The tag of the request is read and tested against -1 before the
  tag structure of the queue is looked at. The two early returns (a tag beyond the bitmap, a
  tag that is not busy) and the message for an empty slot of \<open>tag_index\<close> leave no trace in
  the state. \<open>list_del_init\<close> unlinks the request from the list it is on.
\<close>

definition blk_queue_end_tag :: "request_queue \<Rightarrow> nat \<Rightarrow> fault + request_queue" where
  "blk_queue_end_tag q p =
     (case rqs q p of
        None \<Rightarrow> Inl NULL_POINTER
      | Some rq \<Rightarrow>
          (let t = tag rq
           in if t = - 1 then Inl BUG
              else
                (case queue_tags q of
                   None \<Rightarrow> Inl NULL_POINTER
                 | Some bqt \<Rightarrow>
                     if t \<ge> real_max_depth bqt then Inr q
                     else if t < 0 \<or> \<not> nat t div 32 < length (tag_map bqt)
                     then Inl OUT_OF_BOUNDS
                     else if \<not> bitmap_test_bit (nat t) (tag_map bqt) then Inr q
                     else if \<not> nat t < length (tag_index bqt) then Inl OUT_OF_BOUNDS
                     else
                       Inr (q\<lparr>rqs := (rqs q)(p \<mapsto> rq\<lparr>flags := flags rq AND NOT REQ_QUEUED,
                                                       tag := - 1\<rparr>),
                              queue_head := removeAll p (queue_head q),
                              queue_tags :=
                                Some (bqt\<lparr>tag_map := bitmap_clear_bit (nat t) (tag_map bqt),
                                          busy_list := removeAll p (busy_list bqt),
                                          tag_index := (tag_index bqt)[nat t := None],
                                          busy := busy bqt - 1\<rparr>)\<rparr>))))"

text \<open>
  Modelled from the spec: \<open>__elv_add_request\<close> (drivers/block/elevator.c) is missing from
  the sources. Invalidating tags "reinserts each Request through the normal
  Elevator-insertion path" (section 4.4); with \<open>ELEVATOR_INSERT_BACK\<close> the request goes
  to the tail of the pending list and belongs to the queue. Linking a request that is
  still on a list corrupts the lists.
\<close>

definition elv_add_request_back :: "request_queue \<Rightarrow> nat \<Rightarrow> fault + request_queue" where
  "elv_add_request_back q p =
     (case rqs q p of
        None \<Rightarrow> Inl NULL_POINTER
      | Some rq \<Rightarrow>
          if on_list q p then Inl LIST_CORRUPTION
          else Inr (q\<lparr>rqs := (rqs q)(p \<mapsto> rq\<lparr>rq_q := True\<rparr>),
                      queue_head := queue_head q @ [p]\<rparr>))"

text \<open>
  The body of the loop of \<open>blk_queue_invalidate_tags\<close> for one entry of the busy list,
  and the loop over the entries (\<open>list_for_each_safe\<close> reads the successor of an entry
  before the body unlinks it).
\<close>

definition invalidate_tag :: "request_queue \<Rightarrow> nat \<Rightarrow> fault + request_queue" where
  "invalidate_tag q p =
     (case rqs q p of
        None \<Rightarrow> Inl NULL_POINTER
      | Some rq \<Rightarrow>
          (case (if tag rq = - 1
                 then Inr (q\<lparr>rqs := (rqs q)(p \<mapsto> rq\<lparr>flags := flags rq AND NOT REQ_QUEUED\<rparr>),
                             queue_head := removeAll p (queue_head q),
                             queue_tags := map_option
                               (\<lambda>bqt. bqt\<lparr>busy_list := removeAll p (busy_list bqt)\<rparr>)
                               (queue_tags q)\<rparr>)
                 else blk_queue_end_tag q p) of
             Inl f \<Rightarrow> Inl f
           | Inr q1 \<Rightarrow>
               (case rqs q1 p of
                  None \<Rightarrow> Inl NULL_POINTER
                | Some rq1 \<Rightarrow>
                    elv_add_request_back
                      (q1\<lparr>rqs := (rqs q1)(p \<mapsto> rq1\<lparr>flags := flags rq1 AND NOT REQ_STARTED\<rparr>)\<rparr>)
                      p)))"

fun invalidate_tags_loop :: "nat list \<Rightarrow> request_queue \<Rightarrow> fault + request_queue" where
  "invalidate_tags_loop [] q = Inr q"
| "invalidate_tags_loop (p # ps) q =
     (case invalidate_tag q p of
        Inl f \<Rightarrow> Inl f
      | Inr q1 \<Rightarrow> invalidate_tags_loop ps q1)"

definition blk_queue_invalidate_tags :: "request_queue \<Rightarrow> fault + request_queue" where
  "blk_queue_invalidate_tags q =
     (case queue_tags q of
        None \<Rightarrow> Inl NULL_POINTER
      | Some bqt \<Rightarrow> invalidate_tags_loop (busy_list bqt) q)"

text \<open>
  Starting, and ending, a tag for each request of a list in turn. \<open>start_tags\<close> collects
  the return values of \<open>blk_queue_start_tag\<close>.
\<close>

fun start_tags :: "request_queue \<Rightarrow> nat list \<Rightarrow> fault + (int list \<times> request_queue)" where
  "start_tags q [] = Inr ([], q)"
| "start_tags q (p # ps) =
     (case blk_queue_start_tag q p of
        Inl f \<Rightarrow> Inl f
      | Inr (ret, q1) \<Rightarrow>
          (case start_tags q1 ps of
             Inl f \<Rightarrow> Inl f
           | Inr (rets, q2) \<Rightarrow> Inr (ret # rets, q2)))"

fun end_tags :: "request_queue \<Rightarrow> nat list \<Rightarrow> fault + request_queue" where
  "end_tags q [] = Inr q"
| "end_tags q (p # ps) =
     (case blk_queue_end_tag q p of
        Inl f \<Rightarrow> Inl f
      | Inr q1 \<Rightarrow> end_tags q1 ps)"

subsection \<open>The tags in use\<close>

text \<open>
  For the proofs about tags: the set of the bits that are set in a bitmap, the tag a request
  holds, and the condition that ties the tag structure of depth \<open>d\<close> to the list \<open>ts\<close> of
  the requests that hold a tag. The bitmap has \<open>d div 32 + 1\<close> words; the bits from \<open>d\<close>
  upwards are set, as \<open>init_tag_map\<close> leaves them, and below \<open>d\<close> exactly the tags of
  \<open>ts\<close> are set; these tags are distinct; \<open>ts\<close> is the busy list, \<open>busy\<close> its length, and
  none of its requests is on the pending list.
\<close>

definition bits_of :: "32 word list \<Rightarrow> nat set" where
  "bits_of m = {i. i < 32 * length m \<and> bitmap_test_bit i m}"

definition tg :: "request_queue \<Rightarrow> nat \<Rightarrow> nat" where
  "tg q p = nat (tag (the (rqs q p)))"

definition tagged :: "request_queue \<Rightarrow> nat \<Rightarrow> nat list \<Rightarrow> bool" where
  "tagged q d ts \<longleftrightarrow>
     (case queue_tags q of
        None \<Rightarrow> False
      | Some bqt \<Rightarrow>
          length (tag_map bqt) = d div 32 + 1 \<and>
          real_max_depth bqt = int (32 * (d div 32 + 1)) \<and>
          max_depth bqt = int d \<and>
          length (tag_index bqt) = d \<and>
          busy_list bqt = ts \<and>
          busy bqt = int (length ts) \<and>
          distinct ts \<and>
          (\<forall>p\<in>set ts. case rqs q p of None \<Rightarrow> False
                                     | Some r \<Rightarrow> 0 \<le> tag r \<and> tag r < int d) \<and>
          inj_on (tg q) (set ts) \<and>
          bits_of (tag_map bqt) = {d..<32 * (d div 32 + 1)} \<union> tg q ` set ts \<and>
          set ts \<inter> set (queue_head q) = {})"

section \<open>The buffer cache (fs/buffer.c)\<close>

subsection \<open>Buffer heads and pages\<close>

text \<open>
  The bits of \<open>b_state\<close> (\<open>enum bh_state_bits\<close>) and of a page's flags. The state of a
  buffer is the set of its bits that are set: \<open>set_buffer_dirty\<close> inserts \<open>BH_Dirty\<close>,
  \<open>buffer_dirty\<close> tests membership, \<open>test_set_buffer_dirty\<close> does both. The numbers of
  the bits are declared in linux/buffer\_head.h and linux/page-flags.h, which are missing
  from the sources.
\<close>

datatype bh_state_bits =
  BH_Uptodate | BH_Dirty | BH_Lock | BH_Req | BH_Mapped | BH_New
  | BH_Async_Read | BH_Async_Write | BH_Delay | BH_Boundary | BH_Write_EIO

datatype page_flag = PG_locked | PG_dirty | PG_writeback

text \<open>The completion hooks that \<open>b_end_io\<close> points to in the code below.\<close>

datatype bh_end_io_t = END_BUFFER_READ_SYNC | END_BUFFER_WRITE_SYNC

text \<open>
  \<open>struct buffer_head\<close>. \<open>b_io\<close> is not a field of the C structure: it stands for the
  I/O in flight on the buffer, which the block layer completes by calling \<open>b_end_io\<close>, and
  holds the outcome the completion will report (\<open>True\<close> for success).
\<close>

record buffer_head =
  b_state :: "bh_state_bits set"
  b_count :: int
  b_bdev :: nat
  b_blocknr :: nat
  b_size :: nat
  b_page :: nat
  b_end_io :: "bh_end_io_t option"
  b_io :: "bool option"

text \<open>
  The state: the buffer heads by handle; the array \<open>bhs\<close> of this CPU's \<open>bh_lru\<close>; for
  each page its flags, its \<open>mapping\<close> and the ring of its buffers starting at
  \<open>page_buffers(page)\<close> (absent when the page has no buffers); the page tree of the block
  devices' mappings, keyed by device and page index, with \<open>i_blkbits\<close> of each device's
  inode; per mapping the \<open>memory_backed\<close> flag of its backing device, the list
  \<open>dirty_pages\<close> and whether its host inode has been marked \<open>I_DIRTY_PAGES\<close>; the page
  state counter \<open>nr_dirty\<close>; the pages passed to \<open>mark_page_accessed\<close>; and the counter
  \<open>enough\<close> of \<open>__buffer_error\<close>. \<open>PAGE_CACHE_SHIFT\<close> (asm/page.h, missing from the
  sources) is a parameter carried in the state.
\<close>

record buffer_cache =
  bufs :: "nat \<rightharpoonup> buffer_head"
  bhs :: "nat option list"
  page_flags :: "nat \<Rightarrow> page_flag set"
  page_mapping :: "nat \<rightharpoonup> nat"
  page_buffers :: "nat \<rightharpoonup> nat list"
  page_tree :: "nat \<times> nat \<rightharpoonup> nat"
  i_blkbits :: "nat \<Rightarrow> nat"
  PAGE_CACHE_SHIFT :: nat
  memory_backed :: "nat \<Rightarrow> bool"
  dirty_pages :: "nat \<Rightarrow> nat list"
  dirty_inodes :: "nat set"
  nr_dirty :: int
  accessed :: "nat list"
  enough :: int

text \<open>\<open>__buffer_error\<close> reports (and counts) until the counter has passed 10.\<close>

definition buffer_error :: "buffer_cache \<Rightarrow> buffer_cache" where
  "buffer_error c = (if enough c > 10 then c else c\<lparr>enough := enough c + 1\<rparr>)"

text \<open>
  Modelled from the spec: the inline helpers \<open>get_bh\<close> and \<open>put_bh\<close>
  (linux/buffer\_head.h) are missing from the sources. A buffer head carries "a reference
  count" (section 3) with "explicit clone/drop semantics" (section 9): taking a reference adds
  one to \<open>b_count\<close>, dropping one subtracts one.
\<close>

definition get_bh :: "buffer_cache \<Rightarrow> nat \<Rightarrow> fault + buffer_cache" where
  "get_bh c h =
     (case bufs c h of
        None \<Rightarrow> Inl NULL_POINTER
      | Some b \<Rightarrow> Inr (c\<lparr>bufs := (bufs c)(h \<mapsto> b\<lparr>b_count := b_count b + 1\<rparr>)\<rparr>))"

definition put_bh :: "buffer_cache \<Rightarrow> nat \<Rightarrow> fault + buffer_cache" where
  "put_bh c h =
     (case bufs c h of
        None \<Rightarrow> Inl NULL_POINTER
      | Some b \<Rightarrow> Inr (c\<lparr>bufs := (bufs c)(h \<mapsto> b\<lparr>b_count := b_count b - 1\<rparr>)\<rparr>))"

text \<open>\<open>__brelse\<close>.\<close>

definition brelse :: "buffer_cache \<Rightarrow> nat \<Rightarrow> fault + buffer_cache" where
  "brelse c h =
     (case bufs c h of
        None \<Rightarrow> Inl NULL_POINTER
      | Some b \<Rightarrow> if b_count b \<noteq> 0 then put_bh c h else Inr (buffer_error c))"

subsection \<open>Dirtying\<close>

text \<open>
  Modelled from the spec: \<open>__set_page_dirty_nobuffers\<close> (mm/page-writeback.c) is missing
  from the sources. On the first transition of a buffer's dirty bit the owning page is
  marked dirty and inserted "into its address space's dirty-page set" (section 4.8).
\<close>

definition set_page_dirty_nobuffers :: "buffer_cache \<Rightarrow> nat \<Rightarrow> buffer_cache" where
  "set_page_dirty_nobuffers c pg =
     (if PG_dirty \<in> page_flags c pg then c
      else c\<lparr>page_flags := (page_flags c)(pg := insert PG_dirty (page_flags c pg)),
             dirty_pages :=
               (case page_mapping c pg of
                  None \<Rightarrow> dirty_pages c
                | Some m \<Rightarrow> (dirty_pages c)(m := pg # removeAll pg (dirty_pages c m)))\<rparr>)"

definition mark_buffer_dirty :: "buffer_cache \<Rightarrow> nat \<Rightarrow> fault + buffer_cache" where
  "mark_buffer_dirty c h =
     (case bufs c h of
        None \<Rightarrow> Inl NULL_POINTER
      | Some b \<Rightarrow>
          (let c1 = (if BH_Uptodate \<notin> b_state b then buffer_error c else c)
           in if BH_Dirty \<notin> b_state b
              then Inr (set_page_dirty_nobuffers
                          (c1\<lparr>bufs := (bufs c1)(h \<mapsto> b\<lparr>b_state := insert BH_Dirty (b_state b)\<rparr>)\<rparr>)
                          (b_page b))
              else Inr c1))"

text \<open>
  The loop of \<open>__set_page_dirty_buffers\<close> over the ring of the page's buffers, and the
  function; it returns 0.
\<close>

fun dirty_ring :: "nat list \<Rightarrow> buffer_cache \<Rightarrow> fault + buffer_cache" where
  "dirty_ring [] c = Inr c"
| "dirty_ring (h # hs) c =
     (case bufs c h of
        None \<Rightarrow> Inl NULL_POINTER
      | Some b \<Rightarrow>
          dirty_ring hs
            (if BH_Uptodate \<in> b_state b
             then c\<lparr>bufs := (bufs c)(h \<mapsto> b\<lparr>b_state := insert BH_Dirty (b_state b)\<rparr>)\<rparr>
             else buffer_error c))"

definition set_page_dirty_buffers :: "buffer_cache \<Rightarrow> nat \<Rightarrow> fault + (int \<times> buffer_cache)" where
  "set_page_dirty_buffers c pg =
     (case page_mapping c pg of
        None \<Rightarrow> Inr (0, c\<lparr>page_flags := (page_flags c)(pg := insert PG_dirty (page_flags c pg))\<rparr>)
      | Some m \<Rightarrow>
          (case (case page_buffers c pg of
                   None \<Rightarrow> Inr c
                 | Some [] \<Rightarrow> Inl NULL_POINTER
                 | Some ring \<Rightarrow> dirty_ring ring c) of
             Inl f \<Rightarrow> Inl f
           | Inr c1 \<Rightarrow>
               if PG_dirty \<notin> page_flags c1 pg
               then Inr (0, c1\<lparr>page_flags := (page_flags c1)(pg := insert PG_dirty (page_flags c1 pg)),
                               nr_dirty := (if \<not> memory_backed c1 m then nr_dirty c1 + 1
                                            else nr_dirty c1),
                               dirty_pages := (dirty_pages c1)
                                 (m := pg # removeAll pg (dirty_pages c1 m)),
                               dirty_inodes := insert m (dirty_inodes c1)\<rparr>)
               else Inr (0, c1)))"

text \<open>
  For the statements about the page path: the ring that \<open>__set_page_dirty_buffers\<close> walks
  (none for a page without mapping or without buffers), and the number of buffers of a list
  that are not uptodate.
\<close>

definition page_ring :: "buffer_cache \<Rightarrow> nat \<Rightarrow> nat list" where
  "page_ring c pg =
     (case page_mapping c pg of
        None \<Rightarrow> []
      | Some m \<Rightarrow> (case page_buffers c pg of None \<Rightarrow> [] | Some ring \<Rightarrow> ring))"

definition not_uptodate :: "buffer_cache \<Rightarrow> nat list \<Rightarrow> nat" where
  "not_uptodate c ring =
     length (filter (\<lambda>h. case bufs c h of None \<Rightarrow> False
                                           | Some b \<Rightarrow> BH_Uptodate \<notin> b_state b) ring)"

subsection \<open>The per-CPU LRU\<close>











subsection \<open>The entries of the LRU\<close>


subsection \<open>Buffer I/O\<close>

text \<open>
  A call that may wait returns its result, stops in a fault, or sleeps and is never woken. The
  model is sequential: no other thread runs, so a sleeper whom only another thread could wake
  sleeps for ever.
\<close>

datatype 'a outcome = Returns 'a | Stops fault | Sleeps

definition unlock_buffer :: "buffer_cache \<Rightarrow> nat \<Rightarrow> fault + buffer_cache" where
  "unlock_buffer c h =
     (case bufs c h of
        None \<Rightarrow> Inl NULL_POINTER
      | Some b \<Rightarrow>
          (let c1 = (if b_count b = 0 \<and> PG_locked \<notin> page_flags c (b_page b) \<and>
                        PG_writeback \<notin> page_flags c (b_page b)
                     then buffer_error c else c)
           in Inr (c1\<lparr>bufs := (bufs c1)(h \<mapsto> b\<lparr>b_state := b_state b - {BH_Lock}\<rparr>)\<rparr>)))"

definition end_buffer_read_sync :: "buffer_cache \<Rightarrow> nat \<Rightarrow> bool \<Rightarrow> fault + buffer_cache" where
  "end_buffer_read_sync c h uptodate =
     (case bufs c h of
        None \<Rightarrow> Inl NULL_POINTER
      | Some b \<Rightarrow>
          (case unlock_buffer
                  (c\<lparr>bufs := (bufs c)(h \<mapsto> b\<lparr>b_state :=
                      (if uptodate then insert BH_Uptodate (b_state b)
                       else b_state b - {BH_Uptodate})\<rparr>)\<rparr>) h of
             Inl f \<Rightarrow> Inl f
           | Inr c1 \<Rightarrow> put_bh c1 h))"

definition end_buffer_write_sync :: "buffer_cache \<Rightarrow> nat \<Rightarrow> bool \<Rightarrow> fault + buffer_cache" where
  "end_buffer_write_sync c h uptodate =
     (case bufs c h of
        None \<Rightarrow> Inl NULL_POINTER
      | Some b \<Rightarrow>
          (case unlock_buffer
                  (c\<lparr>bufs := (bufs c)(h \<mapsto> b\<lparr>b_state :=
                      (if uptodate then insert BH_Uptodate (b_state b)
                       else insert BH_Write_EIO (b_state b) - {BH_Uptodate})\<rparr>)\<rparr>) h of
             Inl f \<Rightarrow> Inl f
           | Inr c1 \<Rightarrow> put_bh c1 h))"

text \<open>
  \<open>end_bio_bh_io_sync\<close>, for a bio that has completed in full: it calls the hook of the
  buffer, and the bio is gone.
\<close>

definition end_bio_bh_io_sync :: "buffer_cache \<Rightarrow> nat \<Rightarrow> bool \<Rightarrow> fault + buffer_cache" where
  "end_bio_bh_io_sync c h uptodate =
     (case bufs c h of
        None \<Rightarrow> Inl NULL_POINTER
      | Some b \<Rightarrow>
          (case (case b_end_io b of
                   None \<Rightarrow> Inl NULL_POINTER
                 | Some END_BUFFER_READ_SYNC \<Rightarrow> end_buffer_read_sync c h uptodate
                 | Some END_BUFFER_WRITE_SYNC \<Rightarrow> end_buffer_write_sync c h uptodate) of
             Inl f \<Rightarrow> Inl f
           | Inr c1 \<Rightarrow>
               (case bufs c1 h of
                  None \<Rightarrow> Inl NULL_POINTER
                | Some b1 \<Rightarrow> Inr (c1\<lparr>bufs := (bufs c1)(h \<mapsto> b1\<lparr>b_io := None\<rparr>)\<rparr>))))"

text \<open>
  Modelled from the spec: the driver that carries out a bio submitted with \<open>submit_bio\<close>
  is missing from the sources. "I/O failures surface asynchronously through Bio/BufferHead
  completion hooks" (section 7), which "only flip state and wake waiters" (section 5). The
  device is a parameter: \<open>io_ok rw h\<close> is whether the I/O submitted for buffer \<open>h\<close>
  succeeds, and \<open>io_now h\<close> whether its completion runs before the submission returns; a
  completion that does not is left in flight on the buffer.
\<close>

record disk =
  io_ok :: "dir \<Rightarrow> nat \<Rightarrow> bool"
  io_now :: "nat \<Rightarrow> bool"

definition submit_bio :: "disk \<Rightarrow> buffer_cache \<Rightarrow> dir \<Rightarrow> nat \<Rightarrow> fault + buffer_cache" where
  "submit_bio dsk c rw h =
     (if io_now dsk h then end_bio_bh_io_sync c h (io_ok dsk rw h)
      else (case bufs c h of
              None \<Rightarrow> Inl NULL_POINTER
            | Some b \<Rightarrow> Inr (c\<lparr>bufs := (bufs c)(h \<mapsto> b\<lparr>b_io := Some (io_ok dsk rw h)\<rparr>)\<rparr>)))"

text \<open>\<open>submit_bh\<close>, for \<open>READ\<close> and \<open>WRITE\<close>.\<close>

definition submit_bh :: "disk \<Rightarrow> buffer_cache \<Rightarrow> dir \<Rightarrow> nat \<Rightarrow> fault + buffer_cache" where
  "submit_bh dsk c rw h =
     (case bufs c h of
        None \<Rightarrow> Inl NULL_POINTER
      | Some b \<Rightarrow>
          if BH_Lock \<notin> b_state b then Inl BUG
          else if BH_Mapped \<notin> b_state b then Inl BUG
          else if b_end_io b = None then Inl BUG
          else
            (let c1 = (if rw = READ \<and> BH_Uptodate \<in> b_state b then buffer_error c else c);
                 c2 = (if rw = WRITE \<and> BH_Uptodate \<notin> b_state b then buffer_error c1 else c1);
                 c3 = (if rw = READ \<and> BH_Dirty \<in> b_state b then buffer_error c2 else c2);
                 st = (if BH_Req \<in> b_state b \<and> rw = WRITE
                       then insert BH_Req (b_state b) - {BH_Write_EIO}
                       else insert BH_Req (b_state b))
             in submit_bio dsk (c3\<lparr>bufs := (bufs c3)(h \<mapsto> b\<lparr>b_state := st\<rparr>)\<rparr>) rw h))"

text \<open>The body of the loop of \<open>ll_rw_block\<close>, and the loop over the array.\<close>

definition ll_rw_block_one :: "disk \<Rightarrow> buffer_cache \<Rightarrow> dir \<Rightarrow> nat \<Rightarrow> fault + buffer_cache" where
  "ll_rw_block_one dsk c rw h =
     (case bufs c h of
        None \<Rightarrow> Inl NULL_POINTER
      | Some b \<Rightarrow>
          if BH_Lock \<in> b_state b then Inr c
          else
            (let b1 = b\<lparr>b_state := insert BH_Lock (b_state b), b_count := b_count b + 1,
                        b_end_io := Some (if rw = WRITE then END_BUFFER_WRITE_SYNC
                                          else END_BUFFER_READ_SYNC)\<rparr>;
                 c1 = c\<lparr>bufs := (bufs c)(h \<mapsto> b1)\<rparr>
             in if rw = WRITE \<and> BH_Dirty \<in> b_state b
                then submit_bh dsk
                       (c\<lparr>bufs := (bufs c)(h \<mapsto> b1\<lparr>b_state := b_state b1 - {BH_Dirty}\<rparr>)\<rparr>) WRITE h
                else if rw \<noteq> WRITE \<and> BH_Uptodate \<notin> b_state b
                then submit_bh dsk c1 rw h
                else (case unlock_buffer c1 h of
                        Inl f \<Rightarrow> Inl f
                      | Inr c2 \<Rightarrow> put_bh c2 h)))"

fun ll_rw_block :: "disk \<Rightarrow> buffer_cache \<Rightarrow> dir \<Rightarrow> nat list \<Rightarrow> fault + buffer_cache" where
  "ll_rw_block dsk c rw [] = Inr c"
| "ll_rw_block dsk c rw (h # hs) =
     (case ll_rw_block_one dsk c rw h of
        Inl f \<Rightarrow> Inl f
      | Inr c1 \<Rightarrow> ll_rw_block dsk c1 rw hs)"

text \<open>
  Modelled from the spec: the inline wrapper \<open>wait_on_buffer\<close> (linux/buffer\_head.h) is
  missing from the sources. Waiting is among the "operations that may block" (section 5): the
  wrapper returns at once for an unlocked buffer and calls \<open>__wait_on_buffer\<close>, which is
  in fs/buffer.c, for a locked one. There \<open>blk_run_queues\<close> and \<open>io_schedule\<close> let the
  driver run, and the I/O in flight on the buffer completes; a buffer that is locked with no I/O
  in flight is never unlocked, nor is one that is still locked after the completion.
\<close>

definition wait_on_buffer :: "buffer_cache \<Rightarrow> nat \<Rightarrow> buffer_cache outcome" where
  "wait_on_buffer c h =
     (case bufs c h of
        None \<Rightarrow> Stops NULL_POINTER
      | Some b \<Rightarrow>
          if BH_Lock \<notin> b_state b then Returns c
          else
            (let c1 = (if b_count b = 0 \<and> PG_locked \<notin> page_flags c (b_page b)
                       then buffer_error c else c)
             in case b_io b of
                  None \<Rightarrow> Sleeps
                | Some ok \<Rightarrow>
                    (case end_bio_bh_io_sync c1 h ok of
                       Inl f \<Rightarrow> Stops f
                     | Inr c2 \<Rightarrow>
                         (case bufs c2 h of
                            None \<Rightarrow> Stops NULL_POINTER
                          | Some b2 \<Rightarrow>
                              if BH_Lock \<in> b_state b2 then Sleeps else Returns c2))))"

subsection \<open>The fsync drain\<close>

text \<open>\<open>EIO\<close> is 5 (asm/errno.h, missing from the sources).\<close>

definition EIO :: int where
  "EIO = 5"

text \<open>
  The lists of buffers (\<open>b_assoc_buffers\<close>) are lists of handles, the first element being
  \<open>list->next\<close>. The block of \<open>fsync_buffers_list\<close> that writes one dirty buffer, and
  the first loop, which empties the list and fills \<open>tmp\<close> from its head.
\<close>

definition fsync_write_one :: "disk \<Rightarrow> buffer_cache \<Rightarrow> nat \<Rightarrow> buffer_cache outcome" where
  "fsync_write_one dsk c h =
     (case get_bh c h of
        Inl f \<Rightarrow> Stops f
      | Inr c1 \<Rightarrow>
          (case wait_on_buffer c1 h of
             Sleeps \<Rightarrow> Sleeps
           | Stops f \<Rightarrow> Stops f
           | Returns c2 \<Rightarrow>
               (case ll_rw_block dsk c2 WRITE [h] of
                  Inl f \<Rightarrow> Stops f
                | Inr c3 \<Rightarrow>
                    (case brelse c3 h of
                       Inl f \<Rightarrow> Stops f
                     | Inr c4 \<Rightarrow> Returns c4))))"

fun fsync_queue_writes ::
  "disk \<Rightarrow> nat list \<Rightarrow> nat list \<Rightarrow> buffer_cache \<Rightarrow> (nat list \<times> buffer_cache) outcome" where
  "fsync_queue_writes dsk [] tmp c = Returns (tmp, c)"
| "fsync_queue_writes dsk (h # list) tmp c =
     (case bufs c h of
        None \<Rightarrow> Stops NULL_POINTER
      | Some b \<Rightarrow>
          if BH_Dirty \<in> b_state b \<or> BH_Lock \<in> b_state b
          then (if BH_Dirty \<in> b_state b
                then (case fsync_write_one dsk c h of
                        Sleeps \<Rightarrow> Sleeps
                      | Stops f \<Rightarrow> Stops f
                      | Returns c1 \<Rightarrow> fsync_queue_writes dsk list (h # tmp) c1)
                else fsync_queue_writes dsk list (h # tmp) c)
          else fsync_queue_writes dsk list tmp c)"

text \<open>
  The block that waits for one buffer and looks at its Uptodate bit, which the second loop
  and \<open>osync_buffers_list\<close> share, and the second loop, which takes the buffers from the
  tail of \<open>tmp\<close>: its argument is \<open>tmp\<close> read from the tail.
\<close>

definition fsync_wait_one ::
  "buffer_cache \<Rightarrow> nat \<Rightarrow> int \<Rightarrow> (int \<times> buffer_cache) outcome" where
  "fsync_wait_one c h err =
     (case get_bh c h of
        Inl f \<Rightarrow> Stops f
      | Inr c1 \<Rightarrow>
          (case wait_on_buffer c1 h of
             Sleeps \<Rightarrow> Sleeps
           | Stops f \<Rightarrow> Stops f
           | Returns c2 \<Rightarrow>
               (case bufs c2 h of
                  None \<Rightarrow> Stops NULL_POINTER
                | Some b \<Rightarrow>
                    (case brelse c2 h of
                       Inl f \<Rightarrow> Stops f
                     | Inr c3 \<Rightarrow>
                         Returns (if BH_Uptodate \<notin> b_state b then - EIO else err, c3)))))"

fun fsync_wait_all :: "nat list \<Rightarrow> int \<Rightarrow> buffer_cache \<Rightarrow> (int \<times> buffer_cache) outcome" where
  "fsync_wait_all [] err c = Returns (err, c)"
| "fsync_wait_all (h # hs) err c =
     (case fsync_wait_one c h err of
        Sleeps \<Rightarrow> Sleeps
      | Stops f \<Rightarrow> Stops f
      | Returns (err1, c1) \<Rightarrow> fsync_wait_all hs err1 c1)"

text \<open>
  \<open>osync_buffers_list\<close>: the walk from the tail of the list to the first locked buffer,
  and the loop that waits for it and starts again. With every turn one more buffer of the list
  is unlocked.
\<close>

fun osync_scan :: "(nat \<rightharpoonup> buffer_head) \<Rightarrow> nat list \<Rightarrow> fault + nat option" where
  "osync_scan m [] = Inr None"
| "osync_scan m (h # hs) =
     (case m h of
        None \<Rightarrow> Inl NULL_POINTER
      | Some b \<Rightarrow> if BH_Lock \<in> b_state b then Inr (Some h) else osync_scan m hs)"

definition buffer_locked :: "buffer_cache \<Rightarrow> nat \<Rightarrow> bool" where
  "buffer_locked c h = (case bufs c h of None \<Rightarrow> False | Some b \<Rightarrow> BH_Lock \<in> b_state b)"

definition buffer_dirty :: "buffer_cache \<Rightarrow> nat \<Rightarrow> bool" where
  "buffer_dirty c h = (case bufs c h of None \<Rightarrow> False | Some b \<Rightarrow> BH_Dirty \<in> b_state b)"

function osync_repeat :: "nat list \<Rightarrow> int \<Rightarrow> buffer_cache \<Rightarrow> (int \<times> buffer_cache) outcome" where
  "osync_repeat list err c =
     (case osync_scan (bufs c) (rev list) of
        Inl f \<Rightarrow> Stops f
      | Inr None \<Rightarrow> Returns (err, c)
      | Inr (Some h) \<Rightarrow>
          (case fsync_wait_one c h err of
             Sleeps \<Rightarrow> Sleeps
           | Stops f \<Rightarrow> Stops f
           | Returns (err1, c1) \<Rightarrow> osync_repeat list err1 c1))"
  by pat_completeness auto


termination
proof (relation "measure (\<lambda>(list, err, c). length (filter (buffer_locked c) list))")
  show "wf (measure (\<lambda>(list, err, c). length (filter (buffer_locked c) list)))"
    by simp
next
  fix list :: "nat list" and err :: int and c :: buffer_cache and x2 h pr err1 c1
  assume scan: "osync_scan (bufs c) (rev list) = Inr x2" and x2: "x2 = Some h"
    and w: "fsync_wait_one c h err = Returns pr" and pr: "(err1, c1) = pr"
  have found: "h \<in> set xs \<and> buffer_locked c h" if "osync_scan (bufs c) xs = Inr (Some h)"
    for xs
    using that
    by (induction xs) (auto simp: buffer_locked_def split: option.splits if_splits)
  have same: "buffer_locked (buffer_error d) k = buffer_locked d k" for d k
    by (simp add: buffer_locked_def buffer_error_def)
  have get: "\<forall>k. buffer_locked d' k = buffer_locked d k" if "get_bh d h = Inr d'" for d d'
    using that by (auto simp: get_bh_def buffer_locked_def split: option.splits if_splits)
  have put: "\<forall>k. buffer_locked d' k = buffer_locked d k" if "put_bh d h = Inr d'" for d d'
    using that by (auto simp: put_bh_def buffer_locked_def split: option.splits if_splits)
  have rel: "\<forall>k. buffer_locked d' k = buffer_locked d k" if "brelse d h = Inr d'" for d d'
    using that put [of d d'] same [of d]
    by (auto simp: brelse_def split: option.splits if_splits)
  have unl: "\<not> buffer_locked d' h \<and> (\<forall>k. k \<noteq> h \<longrightarrow> buffer_locked d' k = buffer_locked d k)"
    if "unlock_buffer d h = Inr d'" for d d'
    using that
    by (auto simp: unlock_buffer_def buffer_locked_def buffer_error_def Let_def
             split: option.splits if_splits)
  have rd: "\<not> buffer_locked d' h \<and> (\<forall>k. k \<noteq> h \<longrightarrow> buffer_locked d' k = buffer_locked d k)"
    if e: "end_buffer_read_sync d h u = Inr d'" for d d' u
  proof -
    from e obtain b d1 where b: "bufs d h = Some b"
      and u1: "unlock_buffer (d\<lparr>bufs := (bufs d)(h \<mapsto> b\<lparr>b_state :=
                      (if u then insert BH_Uptodate (b_state b)
                       else b_state b - {BH_Uptodate})\<rparr>)\<rparr>) h = Inr d1"
      and p1: "put_bh d1 h = Inr d'"
      by (auto simp: end_buffer_read_sync_def split: option.splits sum.splits)
    from unl [OF u1] put [OF p1] show ?thesis
      by (simp add: buffer_locked_def)
  qed
  have wr: "\<not> buffer_locked d' h \<and> (\<forall>k. k \<noteq> h \<longrightarrow> buffer_locked d' k = buffer_locked d k)"
    if e: "end_buffer_write_sync d h u = Inr d'" for d d' u
  proof -
    from e obtain b d1 where b: "bufs d h = Some b"
      and u1: "unlock_buffer (d\<lparr>bufs := (bufs d)(h \<mapsto> b\<lparr>b_state :=
                      (if u then insert BH_Uptodate (b_state b)
                       else insert BH_Write_EIO (b_state b) - {BH_Uptodate})\<rparr>)\<rparr>) h = Inr d1"
      and p1: "put_bh d1 h = Inr d'"
      by (auto simp: end_buffer_write_sync_def split: option.splits sum.splits)
    from unl [OF u1] put [OF p1] show ?thesis
      by (simp add: buffer_locked_def)
  qed
  have bio: "\<not> buffer_locked d' h \<and> (\<forall>k. k \<noteq> h \<longrightarrow> buffer_locked d' k = buffer_locked d k)"
    if e: "end_bio_bh_io_sync d h u = Inr d'" for d d' u
  proof -
    from e obtain d1 b1 where
      hook: "end_buffer_read_sync d h u = Inr d1 \<or> end_buffer_write_sync d h u = Inr d1"
      and b1: "bufs d1 h = Some b1"
      and d': "d' = d1\<lparr>bufs := (bufs d1)(h \<mapsto> b1\<lparr>b_io := None\<rparr>)\<rparr>"
      by (auto simp: end_bio_bh_io_sync_def
               split: option.splits sum.splits bh_end_io_t.splits)
    from hook rd [of d u d1] wr [of d u d1]
    have "\<not> buffer_locked d1 h \<and> (\<forall>k. k \<noteq> h \<longrightarrow> buffer_locked d1 k = buffer_locked d k)"
      by blast
    with b1 d' show ?thesis
      by (simp add: buffer_locked_def)
  qed
  have wait: "\<not> buffer_locked d' h \<and> (\<forall>k. k \<noteq> h \<longrightarrow> buffer_locked d' k = buffer_locked d k)"
    if e: "wait_on_buffer d h = Returns d'" for d d'
  proof (cases "buffer_locked d h")
    case False
    with e show ?thesis
      by (auto simp: wait_on_buffer_def buffer_locked_def split: option.splits if_splits)
  next
    case True
    with e obtain d0 u where d0: "d0 = d \<or> d0 = buffer_error d"
      and c: "end_bio_bh_io_sync d0 h u = Inr d'"
      by (auto simp: wait_on_buffer_def buffer_locked_def Let_def
               split: option.splits if_splits sum.splits)
    from d0 same [of d] have "\<forall>k. buffer_locked d0 k = buffer_locked d k"
      by auto
    with bio [OF c] show ?thesis
      by simp
  qed
  from w pr obtain d1 d2 where g: "get_bh c h = Inr d1" and wt: "wait_on_buffer d1 h = Returns d2"
    and r: "brelse d2 h = Inr c1"
    by (auto simp: fsync_wait_one_def split: sum.splits outcome.splits option.splits)
  from get [OF g] wait [OF wt] rel [OF r]
  have after: "\<not> buffer_locked c1 h" "\<forall>k. k \<noteq> h \<longrightarrow> buffer_locked c1 k = buffer_locked c k"
    by simp_all
  from scan x2 found [of "rev list"] have h: "h \<in> set list" "buffer_locked c h"
    by simp_all
  from after have "\<forall>k\<in>set list. buffer_locked c1 k = (buffer_locked c k \<and> k \<noteq> h)"
    by auto
  then have "filter (buffer_locked c1) list
      = filter (\<lambda>k. k \<noteq> h) (filter (buffer_locked c) list)"
    by (simp cong: filter_cong)
  moreover from h have "h \<in> set (filter (buffer_locked c) list)"
    by simp
  then have "length (filter (\<lambda>k. k \<noteq> h) (filter (buffer_locked c) list))
      < length (filter (buffer_locked c) list)"
    by (rule length_filter_less) simp
  ultimately show "((list, err1, c1), (list, err, c))
      \<in> measure (\<lambda>(list, err, c). length (filter (buffer_locked c) list))"
    by simp
qed

definition osync_buffers_list :: "buffer_cache \<Rightarrow> nat list \<Rightarrow> (int \<times> buffer_cache) outcome" where
  "osync_buffers_list c list = osync_repeat list 0 c"

text \<open>
  \<open>fsync_buffers_list\<close>. The first loop has emptied the list, and nobody has refiled a
  buffer on it when \<open>osync_buffers_list\<close> looks at it.
\<close>

definition fsync_buffers_list ::
  "disk \<Rightarrow> buffer_cache \<Rightarrow> nat list \<Rightarrow> (int \<times> buffer_cache) outcome" where
  "fsync_buffers_list dsk c list =
     (case fsync_queue_writes dsk list [] c of
        Sleeps \<Rightarrow> Sleeps
      | Stops f \<Rightarrow> Stops f
      | Returns (tmp, c1) \<Rightarrow>
          (case fsync_wait_all (rev tmp) 0 c1 of
             Sleeps \<Rightarrow> Sleeps
           | Stops f \<Rightarrow> Stops f
           | Returns (err, c2) \<Rightarrow>
               (case osync_buffers_list c2 [] of
                  Sleeps \<Rightarrow> Sleeps
                | Stops f \<Rightarrow> Stops f
                | Returns (err2, c3) \<Rightarrow> Returns (if err \<noteq> 0 then err else err2, c3))))"

subsection \<open>The buffers of a drain\<close>

text \<open>
  What the drain is waiting for on a buffer of its private list: the buffer is clean, and
  either I/O with the outcome \<open>ok\<close> is in flight on it, or it is unlocked and its Uptodate
  bit is \<open>ok\<close>. Once the wait is over the buffer is clean and unlocked, and its Uptodate bit
  is \<open>ok\<close>.
\<close>

definition awaited :: "buffer_cache \<Rightarrow> nat \<Rightarrow> bool \<Rightarrow> bool" where
  "awaited c h ok =
     (case bufs c h of
        None \<Rightarrow> False
      | Some b \<Rightarrow>
          BH_Dirty \<notin> b_state b \<and>
          (if BH_Lock \<in> b_state b then b_io b = Some ok \<and> b_end_io b \<noteq> None
           else (BH_Uptodate \<in> b_state b) = ok))"

definition drained :: "buffer_cache \<Rightarrow> nat \<Rightarrow> bool \<Rightarrow> bool" where
  "drained c h ok =
     (case bufs c h of
        None \<Rightarrow> False
      | Some b \<Rightarrow>
          BH_Dirty \<notin> b_state b \<and> BH_Lock \<notin> b_state b \<and> (BH_Uptodate \<in> b_state b) = ok)"

text \<open>
  The outcome of the I/O that the drain waits for on a buffer of the list, seen from the state
  at entry: for a dirty buffer the write that the drain submits, for a clean and locked one
  the I/O in flight.
\<close>

definition io_succeeds :: "disk \<Rightarrow> buffer_cache \<Rightarrow> nat \<Rightarrow> bool" where
  "io_succeeds dsk c h =
     (case bufs c h of
        None \<Rightarrow> False
      | Some b \<Rightarrow> if BH_Dirty \<in> b_state b then io_ok dsk WRITE h else b_io b = Some True)"

text \<open>
  A buffer of the list as the drain can handle it without another thread: a dirty buffer is
  mapped, and a locked one is locked by I/O in flight that has a completion hook.
\<close>

definition drainable :: "buffer_cache \<Rightarrow> nat \<Rightarrow> bool" where
  "drainable c h =
     (case bufs c h of
        None \<Rightarrow> False
      | Some b \<Rightarrow>
          (BH_Dirty \<in> b_state b \<longrightarrow> BH_Mapped \<in> b_state b) \<and>
          (BH_Lock \<in> b_state b \<longrightarrow> b_io b \<noteq> None \<and> b_end_io b \<noteq> None))"

section \<open>Example states\<close>

text \<open>Concrete requests, queues and clocks at which the theorems below are evaluated.\<close>

definition example_request :: request where
  "example_request =
     \<lparr>flags = 0, rq_status = RQ_INACTIVE, errors = 0, sector = 0, nr_sectors = 0,
      hard_nr_sectors = 0, nr_phys_segments = 0, nr_hw_segments = 0, bios = [],
      ref_count = 0, tag = -1, rq_disk = None, rq_q = False, rl = False,
      waiting = None, special = None\<rparr>"

definition example_queue ::
  "int \<Rightarrow> int \<Rightarrow> bool \<Rightarrow> bool \<Rightarrow> wait_queue_head_t \<Rightarrow> request_queue" where
  "example_queue n c cong fl ws =
     \<lparr>nr_requests = n, count = (\<lambda>_. c), wait = (\<lambda>_. ws), congested = (\<lambda>_. cong),
      full = (\<lambda>_. fl), cluster = True, max_sectors = 255, max_phys_segments = 128,
      max_hw_segments = 128, max_segment_size = 65536, last_merge = None,
      queue_head = [], queue_tags = None, rqs = Map.empty,
      congestion_wqh = (\<lambda>_. []), woken = []\<rparr>"

definition example_ioc :: "int \<Rightarrow> io_context" where
  "example_ioc n = \<lparr>nr_batch_requests = n, last_waited = 90\<rparr>"

definition example_clock :: clock where
  "example_clock = \<lparr>HZ = 1000, jiffies = 100, time_before = (\<lambda>a b. sint (a - b) < 0)\<rparr>"

definition example_bio :: "nat \<Rightarrow> nat \<Rightarrow> bio" where
  "example_bio s n =
     \<lparr>bi_sector = s, bi_size = 512 * n, bi_phys_segments = 1, bi_hw_segments = 1\<rparr>"

text \<open>
  A filesystem request (\<open>REQ_CMD\<close>) of \<open>n\<close> sectors at sector \<open>s\<close>, made from one bio, taken
  from the pool and held by one reference, with \<open>h\<close> hardware segments.
\<close>

definition example_rq :: "nat \<Rightarrow> nat \<Rightarrow> nat \<Rightarrow> request" where
  "example_rq s n h =
     \<lparr>flags = REQ_CMD, rq_status = RQ_ACTIVE, errors = 0, sector = s, nr_sectors = n,
      hard_nr_sectors = n, nr_phys_segments = 1, nr_hw_segments = h,
      bios = [example_bio s n], ref_count = 1, tag = -1, rq_disk = Some 0, rq_q = True,
      rl = True, waiting = None, special = None\<rparr>"

definition example_macros :: "bool \<Rightarrow> bvec_macros" where
  "example_macros v =
     \<lparr>BIOVEC_VIRT_MERGEABLE = (\<lambda>a b. v), BIOVEC_PHYS_MERGEABLE = (\<lambda>a b. False),
      BIO_SEG_BOUNDARY = (\<lambda>a b. True)\<rparr>"

text \<open>A queue whose pending list holds the given requests, in order.\<close>

definition example_pending :: "(nat \<times> request) list \<Rightarrow> request_queue" where
  "example_pending rs =
     (example_queue 128 2 False False [])\<lparr>queue_head := map fst rs, rqs := map_of rs\<rparr>"

text \<open>
  A tag structure with a bitmap of one word: the slots of \<open>tag_index\<close>, the word, and the
  busy list.
\<close>

definition example_tags :: "nat option list \<Rightarrow> 32 word \<Rightarrow> nat list \<Rightarrow> blk_queue_tag" where
  "example_tags idx w bl =
     \<lparr>tag_index = idx, tag_map = [w], busy_list = bl, busy = int (length bl),
      max_depth = int (length idx), real_max_depth = 32\<rparr>"

text \<open>A buffer head of 1024 bytes on page 0 of device 0, held by one reference.\<close>

definition example_bh :: "bh_state_bits set \<Rightarrow> nat \<Rightarrow> buffer_head" where
  "example_bh s blk =
     \<lparr>b_state = s, b_count = 1, b_bdev = 0, b_blocknr = blk, b_size = 1024, b_page = 0,
      b_end_io = None, b_io = None\<rparr>"

text \<open>
  A cache holding the given buffers, all in the ring of page 0 of device 0 (1024-byte blocks
  in 4096-byte pages), and the given LRU array.
\<close>

definition example_cache :: "(nat \<times> buffer_head) list \<Rightarrow> nat option list \<Rightarrow> buffer_cache" where
  "example_cache bs lru =
     \<lparr>bufs = map_of bs, bhs = lru, page_flags = (\<lambda>_. {}), page_mapping = [0 \<mapsto> 0],
      page_buffers = [0 \<mapsto> map fst bs], page_tree = [(0, 0) \<mapsto> 0], i_blkbits = (\<lambda>_. 10),
      PAGE_CACHE_SHIFT = 12, memory_backed = (\<lambda>_. False), dirty_pages = (\<lambda>_. []),
      dirty_inodes = {}, nr_dirty = 0, accessed = [], enough = 0\<rparr>"


text \<open>
  A device on which the I/O of the buffers in \<open>bad\<close> fails, and which completes the I/O of
  the buffers in \<open>now\<close> before the submission returns.
\<close>

definition example_disk :: "nat list \<Rightarrow> nat list \<Rightarrow> disk" where
  "example_disk bad now = \<lparr>io_ok = (\<lambda>rw h. h \<notin> set bad), io_now = (\<lambda>h. h \<in> set now)\<rparr>"

text \<open>A buffer head under a write that is in flight and will report \<open>ok\<close>.\<close>

definition example_bh_io :: "bh_state_bits set \<Rightarrow> nat \<Rightarrow> bool \<Rightarrow> buffer_head" where
  "example_bh_io s blk ok =
     (example_bh (insert BH_Lock s) blk)\<lparr>b_end_io := Some END_BUFFER_WRITE_SYNC, b_io := Some ok\<rparr>"

text \<open>
  Four buffers on the list of an inode: 1 and 2 dirty, 3 clean and unlocked, 4 clean with a
  write in flight that will succeed.
\<close>

definition example_fsync_cache :: buffer_cache where
  "example_fsync_cache =
     example_cache
       [(1, example_bh {BH_Uptodate, BH_Dirty, BH_Mapped} 0),
        (2, example_bh {BH_Uptodate, BH_Dirty, BH_Mapped} 1),
        (3, example_bh {BH_Uptodate, BH_Mapped} 2),
        (4, example_bh_io {BH_Uptodate, BH_Mapped} 3 True)] []"

text \<open>A queue of four request slots with nine requests pending.\<close>

definition example_nine :: request_queue where
  "example_nine =
     (example_pending
        [(1, example_rq 0 8 1), (2, example_rq 8 8 1), (3, example_rq 16 8 1),
         (4, example_rq 24 8 1), (5, example_rq 32 8 1), (6, example_rq 40 8 1),
         (7, example_rq 48 8 1), (8, example_rq 56 8 1), (9, example_rq 64 8 1)])
       \<lparr>nr_requests := 4\<rparr>"

section \<open>Facts about the admission path\<close>

lemmas REQ_bits = REQ_RW_bit_def REQ_FAILFAST_bit_def REQ_SOFTBARRIER_bit_def
  REQ_HARDBARRIER_bit_def REQ_CMD_bit_def REQ_NOMERGE_bit_def REQ_STARTED_bit_def
  REQ_DONTPREP_bit_def REQ_QUEUED_bit_def

lemmas admission_defs = example_queue_def example_request_def example_clock_def example_ioc_def get_request_def
        freed_request_def Let_def blk_queue_full_def blk_set_queue_full_def
        blk_clear_queue_full_def ioc_batching_def ioc_set_batching_def
        queue_congestion_on_threshold_def queue_congestion_off_threshold_def
        set_queue_congested_def clear_queue_congested_def blk_alloc_request_def
        waitqueue_active_def dir_flags_def ulong_def


lemma clear_queue_congested_frame:
  "count (clear_queue_congested q rw) = count q"
  "wait (clear_queue_congested q rw) = wait q"
  "nr_requests (clear_queue_congested q rw) = nr_requests q"
  "full (clear_queue_congested q rw) = full q"
  "congested (clear_queue_congested q rw) = (congested q)(rw := False)"
  by (auto simp: clear_queue_congested_def Let_def split: prod.splits)

lemma clear_queue_congested_woken:
  "set (woken q) \<subseteq> set (woken (clear_queue_congested q rw))"
  by (auto simp: clear_queue_congested_def Let_def split: prod.splits)

lemma freed_request_frame:
  "d \<noteq> rw \<Longrightarrow> count (freed_request q rw) d = count q d"
  "d \<noteq> rw \<Longrightarrow> congested (freed_request q rw) d = congested q d"
  "d \<noteq> rw \<Longrightarrow> wait (freed_request q rw) d = wait q d"
  "d \<noteq> rw \<Longrightarrow> full (freed_request q rw) d = full q d"
  "count (freed_request q rw) rw = count q rw - 1"
  "nr_requests (freed_request q rw) = nr_requests q"
  by (auto simp: freed_request_def Let_def clear_queue_congested_frame blk_clear_queue_full_def
       queue_congestion_off_threshold_def split: prod.splits)

lemma freed_request_congested:
  "congested (freed_request q rw) rw =
     (if count q rw - 1 < queue_congestion_off_threshold q then False else congested q rw)"
  by (auto simp: freed_request_def Let_def clear_queue_congested_frame blk_clear_queue_full_def
       queue_congestion_off_threshold_def split: prod.splits)

lemma freed_request_full:
  "full (freed_request q rw) rw =
     (if ulong (count q rw) \<le> ulong (nr_requests q) \<and> snd (wake_up (wait q rw)) = []
      then False else full q rw)"
  by (cases "wait q rw")
     (auto simp: freed_request_def Let_def clear_queue_congested_frame blk_clear_queue_full_def
       waitqueue_active_def queue_congestion_off_threshold_def split: prod.splits)




text \<open>Inside the ranges of the C types the conversions change nothing.\<close>

lemma uint_ulong: "0 \<le> a \<Longrightarrow> a < 2 ^ 32 \<Longrightarrow> uint (ulong a) = a"
  by (simp add: ulong_def uint_word_of_int take_bit_int_eq_self)

lemma ulong_le_iff:
  "0 \<le> a \<Longrightarrow> a < 2 ^ 32 \<Longrightarrow> 0 \<le> b \<Longrightarrow> b < 2 ^ 32 \<Longrightarrow> (ulong a \<le> ulong b) = (a \<le> b)"
  by (simp add: word_le_def uint_ulong)

lemma ulong_less_iff:
  "0 \<le> a \<Longrightarrow> a < 2 ^ 32 \<Longrightarrow> 0 \<le> b \<Longrightarrow> b < 2 ^ 32 \<Longrightarrow> (ulong a < ulong b) = (a < b)"
  by (simp add: word_less_def uint_ulong)

lemma ulong_sint: "ulong (sint w) = w"
  by (simp add: ulong_def)

lemma sint_ulong: "- (2 ^ 31) \<le> a \<Longrightarrow> a < 2 ^ 31 \<Longrightarrow> sint (ulong a) = a"
  by (simp add: ulong_def sint_sbintrunc' signed_take_bit_int_eq_self)

lemma sint_ulong_le: "0 \<le> a \<Longrightarrow> a < 2 ^ 32 \<Longrightarrow> sint (ulong a) \<le> a"
proof -
  assume a: "0 \<le> a" "a < 2 ^ 32"
  have "sint (ulong a) = signed_take_bit 31 a"
    by (simp add: ulong_def sint_sbintrunc')
  also from a have "\<dots> \<le> a"
    by (simp add: signed_take_bit_int_less_eq_self_iff)
  finally show ?thesis .
qed


lemma ulong_arith:
  "ulong a - ulong b = ulong (a - b)" "ulong a + 1 = ulong (a + 1)" "ulong a - 1 = ulong (a - 1)"
  "ulong a * 2 = ulong (a * 2)"
  by (simp_all add: ulong_def)



lemma on_threshold_le:
  assumes "0 \<le> nr_requests q" "nr_requests q < 2 ^ 32"
  shows "queue_congestion_on_threshold q \<le> nr_requests q"
proof -
  let ?n = "ulong (nr_requests q)"
  let ?w = "?n - ?n div 8 + 1"
  from assms have n: "sint ?n \<le> nr_requests q" and u: "uint ?n = nr_requests q"
    by (simp_all add: sint_ulong_le uint_ulong)
  have "sint ?w \<le> nr_requests q" if "\<not> ?n < ?w"
  proof -
    have "sint ?w = signed_take_bit 31 (uint ?w)"
      by (simp add: sint_uint)
    also have "\<dots> \<le> uint ?w"
      unfolding signed_take_bit_int_less_eq_self_iff
      by (rule order_trans [of _ 0]) simp_all
    also from that have "\<dots> \<le> uint ?n"
      by (simp add: word_less_def)
    finally show ?thesis
      using u by simp
  qed
  with n show ?thesis
    by (simp add: queue_congestion_on_threshold_def Let_def ulong_sint)
qed



lemma get_request_alloc_failed:
  assumes fail: "blk_alloc_request pool es = None"
      and gate: "may \<or> ioc_batching clk ioc \<or>
                 (\<not> full q rw \<and>
                  (\<not> ulong (nr_requests q) \<le> ulong (count q rw + 1) \<or> ioc \<noteq> None))"
  shows "get_request clk q rw ioc may pool es =
           (None,
            freed_request
              ((if count q rw + 1 \<ge> queue_congestion_on_threshold q
                then (\<lambda>s. set_queue_congested s rw) else id)
                 ((if ulong (nr_requests q) \<le> ulong (count q rw + 1) \<and> \<not> full q rw
                   then blk_set_queue_full q rw else q)
                  \<lparr>count := (count q)(rw := count q rw + 1)\<rparr>)) rw,
            if ulong (nr_requests q) \<le> ulong (count q rw + 1) \<and> \<not> full q rw
            then ioc_set_batching clk ioc else ioc)"
  using assms
  by (cases ioc)
     (auto simp: get_request_def Let_def blk_queue_full_def blk_set_queue_full_def
        ioc_batching_def ioc_set_batching_def queue_congestion_on_threshold_def
        set_queue_congested_def BLK_BATCH_REQ_def)


section \<open>Congestion hysteresis\<close>





section \<open>A failed pool allocation\<close>

text \<open>
  Claim C10, as stated, at two inputs. With 128 slots, 112 requests out and the congested
  bit clear, a call whose pool allocation fails returns \<open>NULL\<close> and leaves the bit set:
  the increment reached the on-threshold 113, and the freed path clears the bit only below
  the off-threshold 111. With 127 requests out, the direction marked full, a batching
  caller and one waiting allocator, the failed call wakes that allocator and leaves the
  full bit clear.
\<close>

theorem failed_allocation_counterexample:
  "fst (get_request example_clock (example_queue 128 112 False False []) WRITE None False None 0)
     = None \<and>
   \<not> congested (example_queue 128 112 False False []) WRITE \<and>
   congested (fst (snd (get_request example_clock (example_queue 128 112 False False [])
     WRITE None False None 0))) WRITE \<and>
   fst (get_request example_clock
         (example_queue 128 127 True True [\<lparr>task = 7, exclusive = True\<rparr>])
         WRITE (Some (example_ioc 32)) False None 0) = None \<and>
   full (example_queue 128 127 True True [\<lparr>task = 7, exclusive = True\<rparr>]) WRITE \<and>
   \<not> full (fst (snd (get_request example_clock
         (example_queue 128 127 True True [\<lparr>task = 7, exclusive = True\<rparr>])
         WRITE (Some (example_ioc 32)) False None 0))) WRITE"
  by (simp add: admission_defs BLK_BATCH_REQ_def)

text \<open>
  Claim C10, amended. Take a queue whose \<open>nr_requests\<close> and outstanding count are within
  their C types, the count not negative and below the largest \<open>int\<close>. When \<open>get_request\<close>
  has incremented the count of the direction (the caller passed the full check: it batches, or
  the elevator admits it, or the direction was not marked full and either stays below
  \<open>nr_requests\<close> or the caller has an io context) and the pool allocation fails, \<open>NULL\<close> is
  returned and the outstanding counts are exactly those before the call. The bits are the ones
  \<open>freed_request\<close> computes, with the thresholds as the code returns them: the congested bit
  is clear if the count is below the off-threshold, and otherwise set if it was set or the
  incremented count reached the on-threshold; the full bit is clear if the incremented count
  is within \<open>nr_requests\<close> and no allocator is left waiting after the wake-up, and otherwise
  set if it was set or the incremented count reached \<open>nr_requests\<close>. The other direction's
  bits are untouched. In particular both bits are as before the call when the incremented
  count stays below the on-threshold, the congested bit was clear or the count is not below
  the off-threshold, and the direction was not marked full.
\<close>

theorem failed_allocation_accounting:
  assumes fail: "blk_alloc_request pool es = None"
      and rng: "0 \<le> nr_requests q" "nr_requests q < 4294967296"
               "0 \<le> count q rw" "count q rw < 2147483647"
      and gate: "may \<or> ioc_batching clk ioc \<or>
                 (\<not> full q rw \<and> (count q rw + 1 < nr_requests q \<or> ioc \<noteq> None))"
      and res: "get_request clk q rw ioc may pool es = (r, q', ioc')"
  shows "r = None \<and> count q' = count q \<and>
         congested q' rw =
           (if count q rw < queue_congestion_off_threshold q then False
            else congested q rw \<or> queue_congestion_on_threshold q \<le> count q rw + 1) \<and>
         full q' rw =
           (if count q rw + 1 \<le> nr_requests q \<and> snd (wake_up (wait q rw)) = [] then False
            else full q rw \<or> nr_requests q \<le> count q rw + 1) \<and>
         (\<forall>d. d \<noteq> rw \<longrightarrow> congested q' d = congested q d \<and> full q' d = full q d) \<and>
         (count q rw + 1 < queue_congestion_on_threshold q \<and>
          (queue_congestion_off_threshold q \<le> count q rw \<or> \<not> congested q rw) \<and>
          \<not> full q rw \<longrightarrow>
            congested q' = congested q \<and> full q' = full q)"
proof -
  from rng have c1: "0 \<le> count q rw + 1" "count q rw + 1 < 2 ^ 32" and n32: "nr_requests q < 2 ^ 32"
    by simp_all
  from rng(1) n32 c1 have ge: "(ulong (nr_requests q) \<le> ulong (count q rw + 1))
      = (nr_requests q \<le> count q rw + 1)"
    by (rule ulong_le_iff)
  from c1 rng(1) n32 have le: "(ulong (count q rw + 1) \<le> ulong (nr_requests q))
      = (count q rw + 1 \<le> nr_requests q)"
    by (rule ulong_le_iff)
  let ?q3 = "(if count q rw + 1 \<ge> queue_congestion_on_threshold q
                then (\<lambda>s. set_queue_congested s rw) else id)
                 ((if ulong (nr_requests q) \<le> ulong (count q rw + 1) \<and> \<not> full q rw
                   then blk_set_queue_full q rw else q)
                  \<lparr>count := (count q)(rw := count q rw + 1)\<rparr>)"
  from gate ge have gate': "may \<or> ioc_batching clk ioc \<or>
      (\<not> full q rw \<and> (\<not> ulong (nr_requests q) \<le> ulong (count q rw + 1) \<or> ioc \<noteq> None))"
    by auto
  from get_request_alloc_failed [OF fail gate'] res
  have r: "r = None" and q': "q' = freed_request ?q3 rw"
    by simp_all
  have c3: "count ?q3 = (count q)(rw := count q rw + 1)"
    and n3: "nr_requests ?q3 = nr_requests q"
    and w3: "wait ?q3 = wait q"
    and g3: "congested ?q3 = (if count q rw + 1 \<ge> queue_congestion_on_threshold q
                then (congested q)(rw := True) else congested q)"
    and f3: "full ?q3 = (if nr_requests q \<le> count q rw + 1 \<and> \<not> full q rw
                   then (full q)(rw := True) else full q)"
    by (simp_all add: set_queue_congested_def blk_set_queue_full_def ge)
  have off3: "queue_congestion_off_threshold ?q3 = queue_congestion_off_threshold q"
    using n3 by (simp add: queue_congestion_off_threshold_def)
  have cnt: "count q' = count q"
  proof
    fix d show "count q' d = count q d"
      by (cases "d = rw") (simp_all add: q' freed_request_frame c3)
  qed
  have cong: "congested q' rw =
           (if count q rw < queue_congestion_off_threshold q then False
            else congested q rw \<or> queue_congestion_on_threshold q \<le> count q rw + 1)"
    unfolding q' freed_request_congested off3 c3 g3 by simp
  have fl: "full q' rw =
           (if count q rw + 1 \<le> nr_requests q \<and> snd (wake_up (wait q rw)) = [] then False
            else full q rw \<or> nr_requests q \<le> count q rw + 1)"
    unfolding q' freed_request_full n3 c3 w3 f3 using le by auto
  have other: "\<forall>d. d \<noteq> rw \<longrightarrow> congested q' d = congested q d \<and> full q' d = full q d"
    by (simp add: q' freed_request_frame g3 f3)
  have on_le: "queue_congestion_on_threshold q \<le> nr_requests q"
    using rng(1) n32 by (rule on_threshold_le)
  have band: "congested q' = congested q \<and> full q' = full q"
    if b: "count q rw + 1 < queue_congestion_on_threshold q \<and>
          (queue_congestion_off_threshold q \<le> count q rw \<or> \<not> congested q rw) \<and>
          \<not> full q rw"
  proof -
    have "congested q' d = congested q d \<and> full q' d = full q d" for d
    proof (cases "d = rw")
      case True
      with b on_le cong fl show ?thesis by auto
    next
      case False
      with other show ?thesis by simp
    qed
    then show ?thesis by auto
  qed
  show ?thesis
    using r cnt cong fl other band by blast
qed

theorem failed_allocation_accounting_witness:
  "blk_alloc_request None 0 = None \<and>
   count (fst (snd (get_request example_clock (example_queue 128 50 False False []) WRITE None
     False None 0))) = count (example_queue 128 50 False False []) \<and>
   congested (fst (snd (get_request example_clock (example_queue 128 50 False False []) WRITE None
     False None 0))) = congested (example_queue 128 50 False False []) \<and>
   full (fst (snd (get_request example_clock (example_queue 128 50 False False []) WRITE None
     False None 0))) = full (example_queue 128 50 False False [])"
proof -
  let ?q = "example_queue 128 50 False False []"
  let ?g = "get_request example_clock ?q WRITE None False None 0"
  have fail: "blk_alloc_request None 0 = None"
    by (simp add: blk_alloc_request_def)
  have rng: "0 \<le> nr_requests ?q" "nr_requests ?q < 4294967296"
    "0 \<le> count ?q WRITE" "count ?q WRITE < 2147483647"
    by (simp_all add: example_queue_def)
  have gate: "False \<or> ioc_batching example_clock None \<or>
      (\<not> full ?q WRITE \<and> (count ?q WRITE + 1 < nr_requests ?q \<or> (None :: io_context option) \<noteq> None))"
    by (simp add: example_queue_def)
  have band: "count ?q WRITE + 1 < queue_congestion_on_threshold ?q \<and>
          (queue_congestion_off_threshold ?q \<le> count ?q WRITE \<or> \<not> congested ?q WRITE) \<and>
          \<not> full ?q WRITE"
    by (simp add: example_queue_def queue_congestion_off_threshold_def
          queue_congestion_on_threshold_def ulong_def)
  have g: "?g = (fst ?g, fst (snd ?g), snd (snd ?g))"
    by simp
  from failed_allocation_accounting [OF fail rng gate g] band fail show ?thesis
    by blast
qed

section \<open>Batching under a full queue\<close>

lemma get_request_full_batching:
  assumes "full q rw" and "ioc_batching clk ioc"
  shows "get_request clk q rw ioc may pool es =
           (case blk_alloc_request pool es of
              None \<Rightarrow> (None, freed_request
                  ((if count q rw + 1 \<ge> queue_congestion_on_threshold q
                    then (\<lambda>s. set_queue_congested s rw) else id)
                     (q\<lparr>count := (count q)(rw := count q rw + 1)\<rparr>)) rw, ioc)
            | Some r \<Rightarrow>
                (Some (r\<lparr>flags := dir_flags rw, errors := 0, rq_status := RQ_ACTIVE,
                         bios := [], ref_count := 1, rq_q := True, rl := True,
                         waiting := None, special := None\<rparr>),
                 (if count q rw + 1 \<ge> queue_congestion_on_threshold q
                    then (\<lambda>s. set_queue_congested s rw) else id)
                     (q\<lparr>count := (count q)(rw := count q rw + 1)\<rparr>),
                 map_option (\<lambda>c. c\<lparr>nr_batch_requests := nr_batch_requests c - 1\<rparr>) ioc))"
  using assms
  by (auto simp: get_request_def Let_def blk_queue_full_def queue_congestion_on_threshold_def
        set_queue_congested_def split: option.splits)

lemma get_request_full_rejected:
  assumes "full q rw" and "\<not> ioc_batching clk ioc" and "\<not> may"
  shows "get_request clk q rw ioc may pool es = (None, q, ioc)"
  using assms by (simp add: get_request_def blk_queue_full_def)

lemma get_requests_batch:
  assumes "full q rw"
      and "int (length clks) \<le> nr_batch_requests c"
      and "\<forall>k\<in>set clks. time_before k (jiffies k) (last_waited c + BLK_BATCH_TIME (HZ k))"
  shows "\<exists>q'. get_requests clks q rw (Some c) may r =
           (replicate (length clks)
              (Some (r\<lparr>flags := dir_flags rw, errors := 0, rq_status := RQ_ACTIVE,
                       bios := [], ref_count := 1, rq_q := True, rl := True,
                       waiting := None, special := None\<rparr>)),
            q',
            Some (c\<lparr>nr_batch_requests := nr_batch_requests c - int (length clks)\<rparr>)) \<and>
         full q' rw \<and> count q' rw = count q rw + int (length clks)"
  using assms
proof (induction clks arbitrary: q c)
  case Nil
  then show ?case by simp
next
  case (Cons k ks)
  let ?q1 = "(if count q rw + 1 \<ge> queue_congestion_on_threshold q
                    then (\<lambda>s. set_queue_congested s rw) else id)
                     (q\<lparr>count := (count q)(rw := count q rw + 1)\<rparr>)"
  let ?c1 = "c\<lparr>nr_batch_requests := nr_batch_requests c - 1\<rparr>"
  from Cons.prems have b: "ioc_batching k (Some c)"
    by (simp add: ioc_batching_def)
  have step: "get_request k q rw (Some c) may (Some r) 0 =
      (Some (r\<lparr>flags := dir_flags rw, errors := 0, rq_status := RQ_ACTIVE,
                       bios := [], ref_count := 1, rq_q := True, rl := True,
                       waiting := None, special := None\<rparr>), ?q1, Some ?c1)"
    using get_request_full_batching [OF Cons.prems(1) b, of may "Some r" 0]
    by (simp add: blk_alloc_request_def)
  have f1: "full ?q1 rw" and c1: "count ?q1 rw = count q rw + 1"
    using Cons.prems(1) by (simp_all add: set_queue_congested_def)
  have l1: "int (length ks) \<le> nr_batch_requests ?c1"
    using Cons.prems(2) by simp
  have t1: "\<forall>k\<in>set ks. time_before k (jiffies k) (last_waited ?c1 + BLK_BATCH_TIME (HZ k))"
    using Cons.prems(3) by simp
  from Cons.IH [OF f1 l1 t1] obtain q' where
    ih: "get_requests ks ?q1 rw (Some ?c1) may r =
           (replicate (length ks)
              (Some (r\<lparr>flags := dir_flags rw, errors := 0, rq_status := RQ_ACTIVE,
                       bios := [], ref_count := 1, rq_q := True, rl := True,
                       waiting := None, special := None\<rparr>)),
            q',
            Some (?c1\<lparr>nr_batch_requests := nr_batch_requests ?c1 - int (length ks)\<rparr>))"
    and f': "full q' rw" and c': "count q' rw = count ?q1 rw + int (length ks)"
    by blast
  have "nr_batch_requests c - 1 - int (length ks) = nr_batch_requests c - int (length (k # ks))"
    by simp
  with step ih f' c' c1 show ?case
    by simp
qed

text \<open>
  Claim C5, as stated, at a full queue and a caller holding the whole batch of 32: the pool
  allocation fails and \<open>get_request\<close> returns \<open>NULL\<close>.
\<close>

theorem batcher_pool_failure_counterexample:
  "full (example_queue 128 128 True True []) WRITE \<and>
   ioc_batching example_clock (Some (example_ioc 32)) \<and>
   fst (get_request example_clock (example_queue 128 128 True True []) WRITE
          (Some (example_ioc 32)) False None 0) = None"
  by (simp add: admission_defs BLK_BATCH_REQ_def)

text \<open>
  Claim C5, amended. On a direction marked full, a current batcher (its batch count is the
  full batch size, or it is positive and the clock is before the end of the batch window) is
  never turned away by the full check: \<open>get_request\<close> returns a request exactly when
  \<open>blk_alloc_request\<close> does. A caller that neither batches nor is admitted by the elevator
  is rejected, and nothing changes. A process holding the full batch of 32 whose pool
  allocations succeed gets 32 consecutive requests within the batch window while the
  direction stays full; its batch count is then 0, and without the elevator's admission its
  next call is rejected.
\<close>

theorem batcher_allocates_when_full:
  assumes fl: "full q rw"
  shows "(ioc_batching clk ioc \<longrightarrow>
            (fst (get_request clk q rw ioc may pool es) \<noteq> None)
              = (blk_alloc_request pool es \<noteq> None)) \<and>
         (\<not> ioc_batching clk ioc \<and> \<not> may \<longrightarrow>
            get_request clk q rw ioc may pool es = (None, q, ioc)) \<and>
         (nr_batch_requests c = BLK_BATCH_REQ \<and> length clks = 32 \<and>
          (\<forall>k\<in>set clks.
             time_before k (jiffies k) (last_waited c + BLK_BATCH_TIME (HZ k))) \<longrightarrow>
            (\<exists>rs q' c'. get_requests clks q rw (Some c) False r = (rs, q', Some c') \<and>
               length rs = 32 \<and> (\<forall>x\<in>set rs. x \<noteq> None) \<and> full q' rw \<and>
               count q' rw = count q rw + 32 \<and> nr_batch_requests c' = 0 \<and>
               fst (get_request clk q' rw (Some c') False (Some r) 0) = None))"
proof -
  have a: "(fst (get_request clk q rw ioc may pool es) \<noteq> None)
              = (blk_alloc_request pool es \<noteq> None)" if "ioc_batching clk ioc"
    using get_request_full_batching [OF fl that, of may pool es]
    by (simp split: option.splits)
  have b: "get_request clk q rw ioc may pool es = (None, q, ioc)"
    if "\<not> ioc_batching clk ioc \<and> \<not> may"
    using that fl by (simp add: get_request_full_rejected)
  have c: "\<exists>rs q' c'. get_requests clks q rw (Some c) False r = (rs, q', Some c') \<and>
               length rs = 32 \<and> (\<forall>x\<in>set rs. x \<noteq> None) \<and> full q' rw \<and>
               count q' rw = count q rw + 32 \<and> nr_batch_requests c' = 0 \<and>
               fst (get_request clk q' rw (Some c') False (Some r) 0) = None"
    if h: "nr_batch_requests c = BLK_BATCH_REQ \<and> length clks = 32 \<and>
          (\<forall>k\<in>set clks.
             time_before k (jiffies k) (last_waited c + BLK_BATCH_TIME (HZ k)))"
  proof -
    from h have l: "int (length clks) \<le> nr_batch_requests c"
      by (simp add: BLK_BATCH_REQ_def)
    from h have t: "\<forall>k\<in>set clks.
             time_before k (jiffies k) (last_waited c + BLK_BATCH_TIME (HZ k))"
      by simp
    from get_requests_batch [OF fl l t, of False r] obtain q' where
      run: "get_requests clks q rw (Some c) False r =
           (replicate (length clks)
              (Some (r\<lparr>flags := dir_flags rw, errors := 0, rq_status := RQ_ACTIVE,
                       bios := [], ref_count := 1, rq_q := True, rl := True,
                       waiting := None, special := None\<rparr>)),
            q',
            Some (c\<lparr>nr_batch_requests := nr_batch_requests c - int (length clks)\<rparr>))"
      and f': "full q' rw" and c': "count q' rw = count q rw + int (length clks)"
      by blast
    let ?c' = "c\<lparr>nr_batch_requests := nr_batch_requests c - int (length clks)\<rparr>"
    from h have z: "nr_batch_requests ?c' = 0"
      by (simp add: BLK_BATCH_REQ_def)
    then have nb: "\<not> ioc_batching clk (Some ?c')"
      by (simp add: ioc_batching_def BLK_BATCH_REQ_def)
    have rej: "fst (get_request clk q' rw (Some ?c') False (Some r) 0) = None"
      using get_request_full_rejected [OF f' nb, of False "Some r" 0] by simp
    from run f' c' z rej h show ?thesis
      by auto
  qed
  from a b c show ?thesis
    by blast
qed

theorem batcher_allocates_when_full_witness:
  "full (example_queue 128 128 True True []) WRITE \<and>
   ioc_batching example_clock (Some (example_ioc 32)) \<and>
   fst (get_request example_clock (example_queue 128 128 True True []) WRITE
          (Some (example_ioc 32)) False (Some example_request) 0) \<noteq> None \<and>
   \<not> ioc_batching example_clock (Some (example_ioc 0)) \<and>
   get_request example_clock (example_queue 128 128 True True []) WRITE
          (Some (example_ioc 0)) False (Some example_request) 0
     = (None, example_queue 128 128 True True [], Some (example_ioc 0)) \<and>
   length (fst (get_requests (replicate 32 example_clock) (example_queue 128 128 True True [])
          WRITE (Some (example_ioc 32)) False example_request)) = 32 \<and>
   None \<notin> set (fst (get_requests (replicate 32 example_clock) (example_queue 128 128 True True [])
          WRITE (Some (example_ioc 32)) False example_request)) \<and>
   map_option nr_batch_requests (snd (snd (get_requests (replicate 32 example_clock)
          (example_queue 128 128 True True []) WRITE (Some (example_ioc 32)) False
          example_request))) = Some 0"
proof -
  let ?q = "example_queue 128 128 True True []"
  have fl: "full ?q WRITE"
    by (simp add: example_queue_def)
  have b: "ioc_batching example_clock (Some (example_ioc 32))"
    by (simp add: ioc_batching_def example_ioc_def BLK_BATCH_REQ_def)
  have nb: "\<not> ioc_batching example_clock (Some (example_ioc 0)) \<and> \<not> False"
    by (simp add: ioc_batching_def example_ioc_def BLK_BATCH_REQ_def)
  have ok: "blk_alloc_request (Some example_request) 0 \<noteq> None"
    by (simp add: blk_alloc_request_def)
  have h: "nr_batch_requests (example_ioc 32) = BLK_BATCH_REQ \<and>
           length (replicate 32 example_clock) = 32 \<and>
           (\<forall>k\<in>set (replicate 32 example_clock).
              time_before k (jiffies k) (last_waited (example_ioc 32) + BLK_BATCH_TIME (HZ k)))"
    by (simp add: example_ioc_def example_clock_def BLK_BATCH_REQ_def BLK_BATCH_TIME_def)
  note t1 = batcher_allocates_when_full [OF fl, of example_clock "Some (example_ioc 32)" False
      "Some example_request" 0 "example_ioc 32" "replicate 32 example_clock" example_request]
  note t2 = batcher_allocates_when_full [OF fl, of example_clock "Some (example_ioc 0)" False
      "Some example_request" 0 "example_ioc 32" "replicate 32 example_clock" example_request]
  from t1 b ok have s1: "fst (get_request example_clock ?q WRITE
          (Some (example_ioc 32)) False (Some example_request) 0) \<noteq> None"
    by blast
  from t2 nb have s2: "get_request example_clock ?q WRITE
          (Some (example_ioc 0)) False (Some example_request) 0
     = (None, ?q, Some (example_ioc 0))"
    by blast
  from t1 h obtain rs q' c' where
    run: "get_requests (replicate 32 example_clock) ?q WRITE (Some (example_ioc 32)) False
            example_request = (rs, q', Some c')"
    and rs: "length rs = 32" "\<forall>x\<in>set rs. x \<noteq> None" and z: "nr_batch_requests c' = 0"
    by blast
  from run rs z have s3:
    "length (fst (get_requests (replicate 32 example_clock) ?q
          WRITE (Some (example_ioc 32)) False example_request)) = 32 \<and>
     None \<notin> set (fst (get_requests (replicate 32 example_clock) ?q
          WRITE (Some (example_ioc 32)) False example_request)) \<and>
     map_option nr_batch_requests (snd (snd (get_requests (replicate 32 example_clock)
          ?q WRITE (Some (example_ioc 32)) False example_request))) = Some 0"
    by auto
  from fl b nb s1 s2 s3 show ?thesis
    by blast
qed

section \<open>Rejecting a merge that exceeds the limits\<close>

lemmas merge_defs = ll_back_merge_fn_def ll_front_merge_fn_def ll_new_mergeable_def
  ll_new_hw_segment_def biotail_def rq_bio_def Let_def

text \<open>
  Claim C1, as stated, at two inputs. A request already holds \<open>max_hw_segments\<close> hardware
  segments and the bio is virtually mergeable with its tail: the combined hardware-segment
  count exceeds the limit, and the back merge is accepted, since \<open>ll_new_mergeable\<close> only
  consults the physical-segment limit. A request of 4294967295 sectors and a bio of one
  sector: the resulting sector count exceeds \<open>max_sectors\<close>, but the sum of 32 bits that the
  code compares with the limit is 0, and the back merge is accepted.
\<close>

theorem merge_over_hw_limit_counterexample:
  "nr_hw_segments (example_rq 0 8 128) + bio_hw_segments (example_queue 128 1 False False [])
       (example_bio 8 8)
     > max_hw_segments (example_queue 128 1 False False []) \<and>
   ll_back_merge_fn (example_macros True) (example_queue 128 1 False False [])
       (example_rq 0 8 128) (example_bio 8 8)
     = Inr (1, (example_rq 0 8 128)\<lparr>nr_phys_segments := 2\<rparr>,
            example_queue 128 1 False False []) \<and>
   nr_sectors ((example_rq 0 8 1)\<lparr>nr_sectors := 4294967295\<rparr>) + bio_sectors (example_bio 8 1)
     > max_sectors (example_queue 128 1 False False []) \<and>
   ll_back_merge_fn (example_macros True) (example_queue 128 1 False False [])
       ((example_rq 0 8 1)\<lparr>nr_sectors := 4294967295\<rparr>) (example_bio 8 1)
     = Inr (1, (example_rq 0 8 1)\<lparr>nr_sectors := 4294967295, nr_phys_segments := 2\<rparr>,
            example_queue 128 1 False False [])"
  by (simp add: merge_defs example_rq_def example_queue_def example_bio_def example_macros_def
        bio_hw_segments_def bio_phys_segments_def bio_sectors_def ushort_def drop_bit_eq_div)

text \<open>
  Claim C1, amended. For a request with a bio chain and an incoming bio whose sector counts
  add up to less than \<open>2 ^ 32\<close> (the sum is one of 32 bits), the back merge and
  the front merge return 0, set \<open>REQ_NOMERGE\<close> on the request and clear the queue's
  last-merge hint whenever the resulting sector count would exceed \<open>max_sectors\<close>, or the
  combined physical-segment count would exceed \<open>max_phys_segments\<close>, or the bio starts a
  new hardware segment (it is not virtually mergeable with the adjacent bio of the request)
  and the combined hardware-segment count would exceed \<open>max_hw_segments\<close>. On such a
  rejection nothing but the flags of the request changes: sector range, segment counts and
  bio chain are as before. A bio that is virtually mergeable and fits the sector and
  physical-segment limits is accepted whatever the hardware-segment counts are, and only
  the physical-segment counter grows.
\<close>

theorem merge_rejected_over_limit:
  assumes ne: "bios req \<noteq> []" and fit: "nr_sectors req + bio_sectors b < 2 ^ 32"
  shows
    "(nr_sectors req + bio_sectors b > max_sectors q \<or>
      nr_phys_segments req + bio_phys_segments q b > max_phys_segments q \<or>
      (\<not> BIOVEC_VIRT_MERGEABLE mac (last (bios req)) b \<and>
         nr_hw_segments req + bio_hw_segments q b > max_hw_segments q) \<longrightarrow>
        ll_back_merge_fn mac q req b
          = Inr (0, req\<lparr>flags := flags req OR REQ_NOMERGE\<rparr>, q\<lparr>last_merge := None\<rparr>)) \<and>
     (nr_sectors req + bio_sectors b > max_sectors q \<or>
      nr_phys_segments req + bio_phys_segments q b > max_phys_segments q \<or>
      (\<not> BIOVEC_VIRT_MERGEABLE mac b (hd (bios req)) \<and>
         nr_hw_segments req + bio_hw_segments q b > max_hw_segments q) \<longrightarrow>
        ll_front_merge_fn mac q req b
          = Inr (0, req\<lparr>flags := flags req OR REQ_NOMERGE\<rparr>, q\<lparr>last_merge := None\<rparr>)) \<and>
     (BIOVEC_VIRT_MERGEABLE mac (last (bios req)) b \<and>
      nr_sectors req + bio_sectors b \<le> max_sectors q \<and>
      nr_phys_segments req + bio_phys_segments q b \<le> max_phys_segments q \<longrightarrow>
        ll_back_merge_fn mac q req b
          = Inr (1, req\<lparr>nr_phys_segments :=
                ushort (int (nr_phys_segments req) + int (bio_phys_segments q b))\<rparr>, q)) \<and>
     (BIOVEC_VIRT_MERGEABLE mac b (hd (bios req)) \<and>
      nr_sectors req + bio_sectors b \<le> max_sectors q \<and>
      nr_phys_segments req + bio_phys_segments q b \<le> max_phys_segments q \<longrightarrow>
        ll_front_merge_fn mac q req b
          = Inr (1, req\<lparr>nr_phys_segments :=
                ushort (int (nr_phys_segments req) + int (bio_phys_segments q b))\<rparr>, q))"
proof -
  from ne obtain h t where "bios req = h # t"
    by (cases "bios req") auto
  with fit show ?thesis
    by (auto simp: merge_defs)
qed

theorem merge_rejected_over_limit_witness:
  "ll_back_merge_fn (example_macros True) (example_queue 128 1 False False [])
       (example_rq 0 250 128) (example_bio 250 8)
     = Inr (0, (example_rq 0 250 128)\<lparr>flags := flags (example_rq 0 250 128) OR REQ_NOMERGE\<rparr>,
            (example_queue 128 1 False False [])\<lparr>last_merge := None\<rparr>) \<and>
   ll_front_merge_fn (example_macros False) (example_queue 128 1 False False [])
       (example_rq 8 8 128) (example_bio 0 8)
     = Inr (0, (example_rq 8 8 128)\<lparr>flags := flags (example_rq 8 8 128) OR REQ_NOMERGE\<rparr>,
            (example_queue 128 1 False False [])\<lparr>last_merge := None\<rparr>) \<and>
   ll_front_merge_fn (example_macros True) (example_queue 128 1 False False [])
       (example_rq 8 8 128) (example_bio 0 8)
     = Inr (1, (example_rq 8 8 128)\<lparr>nr_phys_segments := 2\<rparr>,
            example_queue 128 1 False False [])"
proof -
  let ?q = "example_queue 128 1 False False []"
  have ne: "bios (example_rq 0 250 128) \<noteq> []" "bios (example_rq 8 8 128) \<noteq> []"
    by (simp_all add: example_rq_def)
  have fit: "nr_sectors (example_rq 0 250 128) + bio_sectors (example_bio 250 8) < 2 ^ 32"
    "nr_sectors (example_rq 8 8 128) + bio_sectors (example_bio 0 8) < 2 ^ 32"
    by (simp_all add: example_rq_def example_bio_def bio_sectors_def drop_bit_eq_div)
  have over: "nr_sectors (example_rq 0 250 128) + bio_sectors (example_bio 250 8) > max_sectors ?q"
    by (simp add: example_rq_def example_queue_def example_bio_def bio_sectors_def
          drop_bit_eq_div)
  have hw: "\<not> BIOVEC_VIRT_MERGEABLE (example_macros False) (example_bio 0 8)
                (hd (bios (example_rq 8 8 128))) \<and>
            nr_hw_segments (example_rq 8 8 128) + bio_hw_segments ?q (example_bio 0 8)
              > max_hw_segments ?q"
    by (simp add: example_rq_def example_queue_def example_bio_def example_macros_def
          bio_hw_segments_def)
  have vm: "BIOVEC_VIRT_MERGEABLE (example_macros True) (example_bio 0 8)
                (hd (bios (example_rq 8 8 128))) \<and>
            nr_sectors (example_rq 8 8 128) + bio_sectors (example_bio 0 8) \<le> max_sectors ?q \<and>
            nr_phys_segments (example_rq 8 8 128) + bio_phys_segments ?q (example_bio 0 8)
              \<le> max_phys_segments ?q"
    by (simp add: example_rq_def example_queue_def example_bio_def example_macros_def
          bio_phys_segments_def bio_sectors_def drop_bit_eq_div)
  have two: "ushort (int (nr_phys_segments (example_rq 8 8 128))
               + int (bio_phys_segments ?q (example_bio 0 8))) = 2"
    by (simp add: example_rq_def example_bio_def bio_phys_segments_def ushort_def)
  from merge_rejected_over_limit [OF ne(1) fit(1), where q = ?q and mac = "example_macros True"] over
  have a: "ll_back_merge_fn (example_macros True) ?q (example_rq 0 250 128) (example_bio 250 8)
     = Inr (0, (example_rq 0 250 128)\<lparr>flags := flags (example_rq 0 250 128) OR REQ_NOMERGE\<rparr>,
            ?q\<lparr>last_merge := None\<rparr>)"
    by blast
  from merge_rejected_over_limit [OF ne(2) fit(2), where q = ?q and mac = "example_macros False"] hw
  have b: "ll_front_merge_fn (example_macros False) ?q (example_rq 8 8 128) (example_bio 0 8)
     = Inr (0, (example_rq 8 8 128)\<lparr>flags := flags (example_rq 8 8 128) OR REQ_NOMERGE\<rparr>,
            ?q\<lparr>last_merge := None\<rparr>)"
    by blast
  from merge_rejected_over_limit [OF ne(2) fit(2), where q = ?q and mac = "example_macros True"] vm two
  have c: "ll_front_merge_fn (example_macros True) ?q (example_rq 8 8 128) (example_bio 0 8)
     = Inr (1, (example_rq 8 8 128)\<lparr>nr_phys_segments := 2\<rparr>, ?q)"
    by simp
  from a b c show ?thesis
    by blast
qed

section \<open>Coalescing two requests\<close>

lemma ushort_id: "0 \<le> x \<Longrightarrow> x < 65536 \<Longrightarrow> ushort x = nat x"
  by (simp add: ushort_def)

lemma freed_request_store:
  "rqs (freed_request q rw) = rqs q"
  "queue_head (freed_request q rw) = queue_head q"
  "queue_tags (freed_request q rw) = queue_tags q"
  "last_merge (freed_request q rw) = last_merge q"
  by (auto simp: freed_request_def Let_def clear_queue_congested_def blk_clear_queue_full_def
        split: prod.splits)

lemma ll_merge_requests_fn_ok:
  assumes "special req = None" "special nxt = None"
      and "nr_sectors req + nr_sectors nxt \<le> max_sectors q"
      and "nr_phys_segments req + nr_phys_segments nxt \<le> max_phys_segments q"
      and "nr_hw_segments req + nr_hw_segments nxt \<le> max_hw_segments q"
      and "bios req \<noteq> []" "bios nxt \<noteq> []"
  shows "\<exists>pc hc. blk_phys_contig_segment mac q (biotail req) (rq_bio nxt) = Inr pc \<and>
           blk_hw_contig_segment mac q (biotail req) (rq_bio nxt) = Inr hc \<and>
           ll_merge_requests_fn mac q req nxt =
             Inr (1, req\<lparr>nr_phys_segments :=
                        ushort (int (nr_phys_segments req) + int (nr_phys_segments nxt)
                                  - (if pc then 1 else 0)),
                      nr_hw_segments :=
                        ushort (int (nr_hw_segments req) + int (nr_hw_segments nxt)
                                  - (if hc then 1 else 0))\<rparr>)"
proof -
  from assms(6) have t: "biotail req = Some (last (bios req))"
    by (simp add: biotail_def)
  from assms(7) have h: "rq_bio nxt = Some (hd (bios nxt))"
    by (cases "bios nxt") (simp_all add: rq_bio_def)
  let ?t = "last (bios req)" and ?h = "hd (bios nxt)"
  have "\<exists>pc. blk_phys_contig_segment mac q (Some ?t) (Some ?h) = Inr pc"
    by (auto simp: blk_phys_contig_segment_def)
  then obtain pc where pc: "blk_phys_contig_segment mac q (Some ?t) (Some ?h) = Inr pc"
    by blast
  have "\<exists>hc. blk_hw_contig_segment mac q (Some ?t) (Some ?h) = Inr hc"
    by (auto simp: blk_hw_contig_segment_def)
  then obtain hc where hc: "blk_hw_contig_segment mac q (Some ?t) (Some ?h) = Inr hc"
    by blast
  from assms(1-5) pc hc t h show ?thesis
    by (auto simp: ll_merge_requests_fn_def Let_def)
qed


lemma rq_mergeable_iff:
  "rq_mergeable r \<longleftrightarrow>
     bit (flags r) REQ_CMD_bit \<and> \<not> bit (flags r) REQ_NOMERGE_bit \<and>
     \<not> bit (flags r) REQ_STARTED_bit \<and> \<not> bit (flags r) REQ_HARDBARRIER_bit \<and>
     \<not> bit (flags r) REQ_SOFTBARRIER_bit"
  by (simp add: rq_mergeable_def blk_fs_request_def RQ_NOMERGE_FLAGS_def REQ_CMD_def
        REQ_NOMERGE_def REQ_STARTED_def REQ_HARDBARRIER_def REQ_SOFTBARRIER_def
        bit.conj_disj_distrib or_eq_0_iff bit_iff_and_push_bit_not_eq_0 conj_ac)


lemma locked_blk_put_request_last:
  assumes "rqs q p = Some r" "ref_count r = 1" "rl r" "\<not> on_list q p"
  shows "locked_blk_put_request q p
           = Inr (freed_request (q\<lparr>rqs := (rqs q)(p := None)\<rparr>) (rq_data_dir r))"
  using assms by (simp add: locked_blk_put_request_def Let_def rq_data_dir_def)

lemmas example_merge_defs = example_pending_def example_queue_def example_rq_def
  example_bio_def example_macros_def

text \<open>
  Claim C2, as stated, at two pending requests of 8 sectors each on the same disk and
  direction, the second starting where the first ends, well within the limits. When the
  second carries \<open>REQ_NOMERGE\<close> (as a request does after a rejected bio merge), or when
  it carries a \<open>special\<close> payload, \<open>attempt_merge\<close> returns 0 and both requests stay as
  they are.
\<close>

theorem attempt_merge_counterexample:
  "sector (example_rq 0 8 1) + nr_sectors (example_rq 0 8 1) = sector (example_rq 8 8 1) \<and>
   attempt_merge (example_macros False)
     (example_pending [(1, example_rq 0 8 1),
                       (2, (example_rq 8 8 1)\<lparr>flags := REQ_CMD OR REQ_NOMERGE\<rparr>)]) 1 2
    = Inr (0, example_pending [(1, example_rq 0 8 1),
                       (2, (example_rq 8 8 1)\<lparr>flags := REQ_CMD OR REQ_NOMERGE\<rparr>)]) \<and>
   attempt_merge (example_macros False)
     (example_pending [(1, example_rq 0 8 1),
                       (2, (example_rq 8 8 1)\<lparr>special := Some 0\<rparr>)]) 1 2
    = Inr (0, example_pending [(1, example_rq 0 8 1),
                       (2, (example_rq 8 8 1)\<lparr>special := Some 0\<rparr>)])"
  by (simp add: attempt_merge_def example_merge_defs rq_mergeable_iff rq_data_dir_def
        REQ_CMD_def REQ_NOMERGE_def REQ_bits bit_simps)

text \<open>
  Claim C2, amended. Take two distinct requests of one queue on the same device and
  direction, the first's sector plus \<open>nr_sectors\<close> equal to the second's sector, whose
  combined sector and segment counts fit the queue's limits. If moreover both are mergeable
  (filesystem commands with none of the no-merge, started and barrier flags), neither has
  a \<open>special\<close> payload, the second has no waiter, both hold a bio chain and at least one
  segment with \<open>hard_nr_sectors\<close> equal to \<open>nr_sectors\<close>, and the second comes from the
  queue's pool, is held by one reference and is not on the tag busy list, then
  \<open>attempt_merge\<close> returns 1 and leaves exactly one request: the first, with the same
  start sector, \<open>nr_sectors\<close> the sum, the bio chain the concatenation, and physical and
  hardware segment counts within \<open>max_phys_segments\<close> and \<open>max_hw_segments\<close>. The second
  is off the pending list and released to the pool, and the count of its direction is one
  less.
\<close>

theorem attempt_merge_coalesces:
  assumes st: "rqs q p = Some req" "rqs q np = Some nxt" "p \<noteq> np"
      and mg: "rq_mergeable req" "rq_mergeable nxt"
      and contig: "sector req + nr_sectors req = sector nxt"
      and same: "rq_data_dir req = rq_data_dir nxt" "rq_disk req = rq_disk nxt"
      and plain: "waiting nxt = None" "special nxt = None" "special req = None"
      and fit: "nr_sectors req + nr_sectors nxt \<le> max_sectors q"
               "nr_phys_segments req + nr_phys_segments nxt \<le> max_phys_segments q"
               "nr_hw_segments req + nr_hw_segments nxt \<le> max_hw_segments q"
      and lim: "max_phys_segments q < 65536" "max_hw_segments q < 65536"
      and segs: "1 \<le> nr_phys_segments req" "1 \<le> nr_hw_segments req"
      and chain: "bios req \<noteq> []" "bios nxt \<noteq> []"
      and hard: "hard_nr_sectors req = nr_sectors req" "hard_nr_sectors nxt = nr_sectors nxt"
      and own: "ref_count nxt = 1" "rl nxt"
      and untagged: "np \<notin> set (case queue_tags q of None \<Rightarrow> [] | Some bqt \<Rightarrow> busy_list bqt)"
  shows "\<exists>q' req'. attempt_merge mac q p np = Inr (1, q') \<and>
           rqs q' = (rqs q)(p \<mapsto> req', np := None) \<and>
           queue_head q' = removeAll np (queue_head q) \<and>
           sector req' = sector req \<and>
           nr_sectors req' = nr_sectors req + nr_sectors nxt \<and>
           hard_nr_sectors req' = nr_sectors req + nr_sectors nxt \<and>
           bios req' = bios req @ bios nxt \<and>
           nr_phys_segments req' \<le> max_phys_segments q \<and>
           nr_hw_segments req' \<le> max_hw_segments q \<and>
           flags req' = flags req \<and>
           count q' = (count q)(rq_data_dir nxt := count q (rq_data_dir nxt) - 1)"
proof -
  from ll_merge_requests_fn_ok [OF plain(3) plain(2) fit chain, of mac]
  obtain pc hc where
    m: "ll_merge_requests_fn mac q req nxt =
             Inr (1, req\<lparr>nr_phys_segments :=
                        ushort (int (nr_phys_segments req) + int (nr_phys_segments nxt)
                                  - (if pc then 1 else 0)),
                      nr_hw_segments :=
                        ushort (int (nr_hw_segments req) + int (nr_hw_segments nxt)
                                  - (if hc then 1 else 0))\<rparr>)"
    by blast
  let ?tp = "int (nr_phys_segments req) + int (nr_phys_segments nxt) - (if pc then 1 else 0)"
  let ?th = "int (nr_hw_segments req) + int (nr_hw_segments nxt) - (if hc then 1 else 0)"
  have tp: "ushort ?tp = nat ?tp" "nat ?tp \<le> max_phys_segments q"
    using fit(2) lim(1) segs(1) by (auto simp: ushort_id)
  have th: "ushort ?th = nat ?th" "nat ?th \<le> max_hw_segments q"
    using fit(3) lim(2) segs(2) by (auto simp: ushort_id)
  let ?req2 = "req\<lparr>nr_phys_segments := nat ?tp, nr_hw_segments := nat ?th,
                    bios := bios req @ bios nxt,
                    hard_nr_sectors := nr_sectors req + nr_sectors nxt,
                    nr_sectors := nr_sectors req + nr_sectors nxt\<rparr>"
  let ?q1 = "elv_merge_requests (q\<lparr>rqs := (rqs q)(p \<mapsto> ?req2)\<rparr>) p np"
  have s1: "rqs ?q1 np = Some nxt"
    using st by (simp add: elv_merge_requests_def)
  have nl: "\<not> on_list ?q1 np"
    using untagged by (simp add: on_list_def elv_merge_requests_def split: option.splits)
  note put = locked_blk_put_request_last [OF s1 own nl]
  let ?q2 = "freed_request (?q1\<lparr>rqs := (rqs ?q1)(np := None)\<rparr>) (rq_data_dir nxt)"
  have am: "attempt_merge mac q p np = Inr (1, ?q2)"
    using st mg contig same plain m tp(1) th(1) chain hard put
    by (simp add: attempt_merge_def Let_def biotail_def)
  have r2: "rqs ?q2 = (rqs q)(p \<mapsto> ?req2, np := None)"
    by (simp add: freed_request_store elv_merge_requests_def)
  have h2: "queue_head ?q2 = removeAll np (queue_head q)"
    by (simp add: freed_request_store elv_merge_requests_def)
  have c2: "count ?q2 = (count q)(rq_data_dir nxt := count q (rq_data_dir nxt) - 1)"
  proof
    fix d show "count ?q2 d = ((count q)(rq_data_dir nxt := count q (rq_data_dir nxt) - 1)) d"
      by (cases "d = rq_data_dir nxt")
         (simp_all add: freed_request_frame elv_merge_requests_def)
  qed
  from am r2 h2 c2 tp(2) th(2) show ?thesis
    by (intro exI [of _ ?q2] exI [of _ ?req2]) simp
qed


theorem attempt_merge_coalesces_witness:
  "(case attempt_merge (example_macros False)
          (example_pending [(1, example_rq 0 8 1), (2, example_rq 8 8 1)]) 1 2 of
      Inl f \<Rightarrow> False
    | Inr (ret, q') \<Rightarrow>
        ret = 1 \<and> rqs q' 2 = None \<and> queue_head q' = [1] \<and>
        map_option sector (rqs q' 1) = Some 0 \<and>
        map_option nr_sectors (rqs q' 1) = Some 16 \<and>
        map_option bios (rqs q' 1) = Some [example_bio 0 8, example_bio 8 8] \<and>
        count q' READ = 1)"
proof -
  let ?q = "example_pending [(1, example_rq 0 8 1), (2, example_rq 8 8 1)]"
  let ?a = "example_rq 0 8 1" and ?b = "example_rq 8 8 1"
  have st: "rqs ?q 1 = Some ?a" "rqs ?q 2 = Some ?b" "(1::nat) \<noteq> 2"
    by (simp_all add: example_pending_def)
  have mg: "rq_mergeable ?a" "rq_mergeable ?b"
    by (simp_all add: rq_mergeable_iff example_rq_def REQ_CMD_def REQ_bits bit_simps)
  have contig: "sector ?a + nr_sectors ?a = sector ?b"
    by (simp add: example_rq_def)
  have same: "rq_data_dir ?a = rq_data_dir ?b" "rq_disk ?a = rq_disk ?b"
    by (simp_all add: example_rq_def rq_data_dir_def)
  have plain: "waiting ?b = None" "special ?b = None" "special ?a = None"
    by (simp_all add: example_rq_def)
  have fit: "nr_sectors ?a + nr_sectors ?b \<le> max_sectors ?q"
       "nr_phys_segments ?a + nr_phys_segments ?b \<le> max_phys_segments ?q"
       "nr_hw_segments ?a + nr_hw_segments ?b \<le> max_hw_segments ?q"
    by (simp_all add: example_merge_defs)
  have lim: "max_phys_segments ?q < 65536" "max_hw_segments ?q < 65536"
    by (simp_all add: example_merge_defs)
  have segs: "1 \<le> nr_phys_segments ?a" "1 \<le> nr_hw_segments ?a"
    by (simp_all add: example_rq_def)
  have chain: "bios ?a \<noteq> []" "bios ?b \<noteq> []"
    by (simp_all add: example_rq_def)
  have hard: "hard_nr_sectors ?a = nr_sectors ?a" "hard_nr_sectors ?b = nr_sectors ?b"
    by (simp_all add: example_rq_def)
  have own: "ref_count ?b = 1" "rl ?b"
    by (simp_all add: example_rq_def)
  have untagged: "2 \<notin> set (case queue_tags ?q of None \<Rightarrow> [] | Some bqt \<Rightarrow> busy_list bqt)"
    by (simp add: example_merge_defs)
  from attempt_merge_coalesces [OF st mg contig same plain fit lim segs chain hard own untagged,
         of "example_macros False"]
  obtain q' req' where
    "attempt_merge (example_macros False) ?q 1 2 = Inr (1, q')"
    "rqs q' = (rqs ?q)(1 \<mapsto> req', 2 := None)"
    "queue_head q' = removeAll 2 (queue_head ?q)"
    "sector req' = sector ?a"
    "nr_sectors req' = nr_sectors ?a + nr_sectors ?b"
    "bios req' = bios ?a @ bios ?b"
    "count q' = (count ?q)(rq_data_dir ?b := count ?q (rq_data_dir ?b) - 1)"
    by blast
  then show ?thesis
    by (simp add: example_merge_defs rq_data_dir_def REQ_CMD_def REQ_bits bit_simps)
qed

section \<open>Fatal consistency violations\<close>

text \<open>
  Claim C9, as stated, at two inputs. A request holds tag 3, the bit of the tag is set, and
  slot 3 of \<open>tag_index\<close> is empty, so that the tag has no owner there:
  \<open>blk_queue_end_tag\<close> reports the missing tag and ends it, it does not stop. A request
  that did not come from the queue's pool (\<open>rl\<close> is \<open>NULL\<close>) drops its last reference
  while it is linked into the pending list: \<open>__blk_put_request\<close> returns without a check.
\<close>

theorem consistency_violations_counterexample:
  "blk_queue_end_tag
     ((example_pending [(1, (example_rq 0 8 1)\<lparr>flags := REQ_CMD OR REQ_QUEUED, tag := 3\<rparr>)])
        \<lparr>queue_head := [],
         queue_tags := Some (example_tags [None, None, None, None] (- 8) [1])\<rparr>) 1
    = Inr ((example_pending [(1, (example_rq 0 8 1)\<lparr>flags := REQ_CMD, tag := - 1\<rparr>)])
        \<lparr>queue_head := [],
         queue_tags := Some (example_tags [None, None, None, None] (- 16) [])\<rparr>) \<and>
   on_list (example_pending [(1, (example_rq 0 8 1)\<lparr>rl := False\<rparr>)]) 1 \<and>
   ref_count ((example_rq 0 8 1)\<lparr>rl := False\<rparr>) = 1 \<and>
   locked_blk_put_request (example_pending [(1, (example_rq 0 8 1)\<lparr>rl := False\<rparr>)]) 1
    = Inr (example_pending [(1, (example_rq 0 8 1)
             \<lparr>rl := False, ref_count := 0, rq_status := RQ_INACTIVE, rq_q := False\<rparr>)])"
  by (simp add: blk_queue_end_tag_def locked_blk_put_request_def on_list_def Let_def
        example_pending_def example_queue_def example_rq_def example_tags_def
        bitmap_test_bit_def bitmap_clear_bit_def REQ_CMD_def REQ_QUEUED_def REQ_bits)

text \<open>
  Claim C9, amended. Starting a tag, on a queue that has a tag structure, for a request
  already flagged \<open>REQ_QUEUED\<close>, ending the tag of a request that holds none (its tag is
  -1), and dropping the last reference of a request from the queue's pool while it is still
  linked into a list each stop in \<open>BUG\<close>. The other violations are not fatal. Ending a tag
  inside the bitmap whose bit is not set returns with nothing changed. Ending a tag whose bit
  is set ends it, whatever the slot of \<open>tag_index\<close> holds, also when the slot is empty and
  the tag has no owner there: the bit is cleared, the request is unlinked and loses its tag
  and its queued flag, the slot is emptied and the busy count goes down by one. Dropping the
  last reference of a request that did not come from the pool (\<open>rl\<close> is \<open>NULL\<close>) releases
  it without a look at the list it is on.
\<close>

theorem consistency_violations_fatal:
  assumes rq: "rqs q p = Some rq"
  shows "(queue_tags q \<noteq> None \<and> flags rq AND REQ_QUEUED \<noteq> 0 \<longrightarrow>
            blk_queue_start_tag q p = Inl BUG) \<and>
         (tag rq = - 1 \<longrightarrow> blk_queue_end_tag q p = Inl BUG) \<and>
         (ref_count rq = 1 \<and> rl rq \<and> on_list q p \<longrightarrow> locked_blk_put_request q p = Inl BUG) \<and>
         (\<forall>bqt. queue_tags q = Some bqt \<and> 0 \<le> tag rq \<and> tag rq < real_max_depth bqt \<and>
                nat (tag rq) div 32 < length (tag_map bqt) \<and>
                \<not> bitmap_test_bit (nat (tag rq)) (tag_map bqt) \<longrightarrow>
            blk_queue_end_tag q p = Inr q) \<and>
         (\<forall>bqt. queue_tags q = Some bqt \<and> 0 \<le> tag rq \<and> tag rq < real_max_depth bqt \<and>
                nat (tag rq) div 32 < length (tag_map bqt) \<and>
                bitmap_test_bit (nat (tag rq)) (tag_map bqt) \<and>
                nat (tag rq) < length (tag_index bqt) \<longrightarrow>
            blk_queue_end_tag q p
              = Inr (q\<lparr>rqs := (rqs q)(p \<mapsto> rq\<lparr>flags := flags rq AND NOT REQ_QUEUED,
                                              tag := - 1\<rparr>),
                       queue_head := removeAll p (queue_head q),
                       queue_tags :=
                         Some (bqt\<lparr>tag_map := bitmap_clear_bit (nat (tag rq)) (tag_map bqt),
                                   busy_list := removeAll p (busy_list bqt),
                                   tag_index := (tag_index bqt)[nat (tag rq) := None],
                                   busy := busy bqt - 1\<rparr>)\<rparr>)) \<and>
         (ref_count rq = 1 \<and> \<not> rl rq \<longrightarrow>
            locked_blk_put_request q p
              = Inr (q\<lparr>rqs := (rqs q)(p \<mapsto> rq\<lparr>ref_count := 0, rq_status := RQ_INACTIVE,
                                              rq_q := False, rl := False\<rparr>)\<rparr>))"
proof -
  have start: "blk_queue_start_tag q p = Inl BUG"
    if "queue_tags q \<noteq> None \<and> flags rq AND REQ_QUEUED \<noteq> 0"
    using that rq by (auto simp: blk_queue_start_tag_def)
  have none: "blk_queue_end_tag q p = Inl BUG" if "tag rq = - 1"
    using that rq by (simp add: blk_queue_end_tag_def)
  have linked: "locked_blk_put_request q p = Inl BUG"
    if "ref_count rq = 1 \<and> rl rq \<and> on_list q p"
    using that rq by (simp add: locked_blk_put_request_def Let_def)
  have idle: "blk_queue_end_tag q p = Inr q"
    if "queue_tags q = Some bqt \<and> 0 \<le> tag rq \<and> tag rq < real_max_depth bqt \<and>
        nat (tag rq) div 32 < length (tag_map bqt) \<and>
        \<not> bitmap_test_bit (nat (tag rq)) (tag_map bqt)" for bqt
    using that rq by (simp add: blk_queue_end_tag_def Let_def)
  have busy: "blk_queue_end_tag q p
              = Inr (q\<lparr>rqs := (rqs q)(p \<mapsto> rq\<lparr>flags := flags rq AND NOT REQ_QUEUED,
                                              tag := - 1\<rparr>),
                       queue_head := removeAll p (queue_head q),
                       queue_tags :=
                         Some (bqt\<lparr>tag_map := bitmap_clear_bit (nat (tag rq)) (tag_map bqt),
                                   busy_list := removeAll p (busy_list bqt),
                                   tag_index := (tag_index bqt)[nat (tag rq) := None],
                                   busy := busy bqt - 1\<rparr>)\<rparr>)"
    if "queue_tags q = Some bqt \<and> 0 \<le> tag rq \<and> tag rq < real_max_depth bqt \<and>
        nat (tag rq) div 32 < length (tag_map bqt) \<and>
        bitmap_test_bit (nat (tag rq)) (tag_map bqt) \<and>
        nat (tag rq) < length (tag_index bqt)" for bqt
    using that rq by (simp add: blk_queue_end_tag_def Let_def)
  have foreign: "locked_blk_put_request q p
              = Inr (q\<lparr>rqs := (rqs q)(p \<mapsto> rq\<lparr>ref_count := 0, rq_status := RQ_INACTIVE,
                                              rq_q := False, rl := False\<rparr>)\<rparr>)"
    if "ref_count rq = 1 \<and> \<not> rl rq"
    using that rq by (simp add: locked_blk_put_request_def Let_def)
  from start none linked idle busy foreign show ?thesis
    by blast
qed

theorem consistency_violations_fatal_witness:
  "blk_queue_start_tag
     ((example_pending [(1, (example_rq 0 8 1)\<lparr>flags := REQ_CMD OR REQ_QUEUED, tag := 0\<rparr>)])
        \<lparr>queue_tags := Some (example_tags [Some 1, None] (- 3) [1])\<rparr>) 1 = Inl BUG \<and>
   blk_queue_end_tag (example_pending [(1, example_rq 0 8 1)]) 1 = Inl BUG \<and>
   locked_blk_put_request (example_pending [(1, example_rq 0 8 1)]) 1 = Inl BUG \<and>
   blk_queue_end_tag
     ((example_pending [(1, (example_rq 0 8 1)\<lparr>tag := 1\<rparr>)])
        \<lparr>queue_tags := Some (example_tags [None, None] (- 4) [])\<rparr>) 1
    = Inr ((example_pending [(1, (example_rq 0 8 1)\<lparr>tag := 1\<rparr>)])
        \<lparr>queue_tags := Some (example_tags [None, None] (- 4) [])\<rparr>) \<and>
   locked_blk_put_request
       (example_pending [(1, (example_rq 0 8 1)\<lparr>rl := False\<rparr>)]) 1
    = Inr (example_pending [(1, (example_rq 0 8 1)
             \<lparr>rl := False, ref_count := 0, rq_status := RQ_INACTIVE, rq_q := False\<rparr>)])"
proof -
  let ?r = "(example_rq 0 8 1)\<lparr>flags := REQ_CMD OR REQ_QUEUED, tag := 0\<rparr>"
  let ?t = "example_tags [Some 1, None] (- 3) [1]"
  let ?q = "(example_pending [(1, ?r)])\<lparr>queue_tags := Some ?t\<rparr>"
  let ?p = "example_pending [(1, example_rq 0 8 1)]"
  let ?i = "(example_rq 0 8 1)\<lparr>tag := 1\<rparr>"
  let ?u = "example_tags [None, None] (- 4) []"
  let ?n = "(example_pending [(1, ?i)])\<lparr>queue_tags := Some ?u\<rparr>"
  let ?f = "(example_rq 0 8 1)\<lparr>rl := False\<rparr>"
  let ?m = "example_pending [(1, ?f)]"
  have q: "rqs ?q 1 = Some ?r" and p: "rqs ?p 1 = Some (example_rq 0 8 1)"
    and n: "rqs ?n 1 = Some ?i" and m: "rqs ?m 1 = Some ?f"
    by (simp_all add: example_pending_def)
  have dbl: "queue_tags ?q \<noteq> None \<and> flags ?r AND REQ_QUEUED \<noteq> 0"
    by (simp add: REQ_CMD_def REQ_QUEUED_def REQ_bits)
  have nt: "tag (example_rq 0 8 1) = - 1"
    by (simp add: example_rq_def)
  have linked: "ref_count (example_rq 0 8 1) = 1 \<and> rl (example_rq 0 8 1) \<and> on_list ?p 1"
    by (simp add: example_rq_def example_pending_def on_list_def)
  have idle: "queue_tags ?n = Some ?u \<and> 0 \<le> tag ?i \<and> tag ?i < real_max_depth ?u \<and>
        nat (tag ?i) div 32 < length (tag_map ?u) \<and>
        \<not> bitmap_test_bit (nat (tag ?i)) (tag_map ?u)"
    by (simp add: example_tags_def bitmap_test_bit_def)
  have foreign: "ref_count ?f = 1 \<and> \<not> rl ?f"
    by (simp add: example_rq_def)
  have upd: "?m\<lparr>rqs := (rqs ?m)(1 \<mapsto> ?f\<lparr>ref_count := 0, rq_status := RQ_INACTIVE,
                                         rq_q := False, rl := False\<rparr>)\<rparr>
      = example_pending [(1, (example_rq 0 8 1)
             \<lparr>rl := False, ref_count := 0, rq_status := RQ_INACTIVE, rq_q := False\<rparr>)]"
    by (simp add: example_pending_def example_rq_def)
  from consistency_violations_fatal [OF q] dbl
  have a: "blk_queue_start_tag ?q 1 = Inl BUG"
    by blast
  from consistency_violations_fatal [OF p] nt linked
  have b: "blk_queue_end_tag ?p 1 = Inl BUG" "locked_blk_put_request ?p 1 = Inl BUG"
    by blast+
  from consistency_violations_fatal [OF n] idle
  have c: "blk_queue_end_tag ?n 1 = Inr ?n"
    by blast
  from consistency_violations_fatal [OF m] foreign upd
  have d: "locked_blk_put_request ?m 1
    = Inr (example_pending [(1, (example_rq 0 8 1)
             \<lparr>rl := False, ref_count := 0, rq_status := RQ_INACTIVE, rq_q := False\<rparr>)])"
    by simp
  from a b c d show ?thesis
    by blast
qed

section \<open>The tag round trip\<close>

lemma length_bitmap_set_bit [simp]: "length (bitmap_set_bit i m) = length m"
  by (simp add: bitmap_set_bit_def)

lemma length_bitmap_clear_bit [simp]: "length (bitmap_clear_bit i m) = length m"
  by (simp add: bitmap_clear_bit_def)

lemma div_mod_32_eq: "(i::nat) div 32 = j div 32 \<Longrightarrow> i mod 32 = j mod 32 \<Longrightarrow> i = j"
  by (metis div_mult_mod_eq)

lemma bitmap_test_set:
  assumes "i < 32 * length m"
  shows "bitmap_test_bit j (bitmap_set_bit i m) = (j = i \<or> bitmap_test_bit j m)"
proof (cases "j div 32 = i div 32")
  case True
  with assms have "i div 32 < length m" by simp
  with True show ?thesis
    by (auto simp: bitmap_test_bit_def bitmap_set_bit_def bit_simps dest: div_mod_32_eq)
next
  case False
  then show ?thesis
    by (auto simp: bitmap_test_bit_def bitmap_set_bit_def)
qed

lemma bitmap_test_clear:
  assumes "i < 32 * length m"
  shows "bitmap_test_bit j (bitmap_clear_bit i m) = (j \<noteq> i \<and> bitmap_test_bit j m)"
proof (cases "j div 32 = i div 32")
  case True
  with assms have "i div 32 < length m" by simp
  with True show ?thesis
    by (auto simp: bitmap_test_bit_def bitmap_clear_bit_def bit_simps dest: div_mod_32_eq)
next
  case False
  then show ?thesis
    by (auto simp: bitmap_test_bit_def bitmap_clear_bit_def)
qed

lemma bits_of_set: "i < 32 * length m \<Longrightarrow> bits_of (bitmap_set_bit i m) = insert i (bits_of m)"
  by (auto simp: bits_of_def bitmap_test_set)

lemma bits_of_clear: "i < 32 * length m \<Longrightarrow> bits_of (bitmap_clear_bit i m) = bits_of m - {i}"
  by (auto simp: bits_of_def bitmap_test_clear)

lemma bits_of_zero: "bits_of (replicate n 0) = {}"
  by (auto simp: bits_of_def bitmap_test_bit_def)

lemma bits_of_fold:
  "\<forall>i\<in>set is. i < 32 * length m \<Longrightarrow>
     length (fold bitmap_set_bit is m) = length m \<and>
     bits_of (fold bitmap_set_bit is m) = bits_of m \<union> set is"
  by (induction "is" arbitrary: m) (auto simp: bits_of_set)

lemma bits_of_eqI:
  assumes len: "length a = length b" and bits: "bits_of a = bits_of b"
  shows "a = b"
proof (rule nth_equalityI [OF len])
  fix k assume k: "k < length a"
  show "a ! k = b ! k"
  proof (rule bit_word_eqI)
    fix n assume "n < LENGTH(32)"
    then have n: "n < 32" by simp
    with k len have in_range: "32 * k + n < 32 * length a" "32 * k + n < 32 * length b"
      by simp_all
    from n have dm: "(32 * k + n) div 32 = k" "(32 * k + n) mod 32 = n"
      by simp_all
    from bits have "(32 * k + n \<in> bits_of a) = (32 * k + n \<in> bits_of b)"
      by simp
    with in_range dm show "bit (a ! k) n = bit (b ! k) n"
      by (simp add: bits_of_def bitmap_test_bit_def)
  qed
qed

lemma ffz_least:
  assumes "i < 32" "\<not> bit w i" "\<forall>j<i. bit w j"
  shows "ffz w = i"
proof -
  have "[0..<32] = [0..<i] @ i # [Suc i..<32]"
    using assms(1) by (metis less_imp_le_nat upt_add_eq_append upt_conv_Cons le0 le_add_diff_inverse)
  moreover have "takeWhile (bit w) ([0..<i] @ i # [Suc i..<32]) = [0..<i]"
    using assms(2,3) by (subst takeWhile_append2) auto
  ultimately have "takeWhile (bit w) [0..<32] = [0..<i]"
    by simp
  then show ?thesis
    by (simp add: ffz_def)
qed

lemma word_all_ones: "(\<forall>j<32. bit (w :: 32 word) j) \<Longrightarrow> w = - 1"
  by (rule bit_word_eqI) simp

lemma start_tag_scan_least:
  assumes "i < 32 * length ws" "\<not> bitmap_test_bit i ws" "\<forall>j<i. bitmap_test_bit j ws"
      and "t + int i < md"
  shows "start_tag_scan ws t md = Inr (Some (t + int i))"
  using assms
proof (induction ws arbitrary: i t)
  case Nil
  then show ?case by simp
next
  case (Cons w ws)
  show ?case
  proof (cases "i < 32")
    case True
    with Cons.prems have c: "\<not> bit w i" and s: "\<forall>j<i. bit w j"
      by (auto simp: bitmap_test_bit_def)
    from c True have "w \<noteq> - 1" by auto
    with ffz_least [OF True c s] show ?thesis by simp
  next
    case False
    then have i: "i = 32 + (i - 32)" by simp
    have "\<forall>j<32. bit w j"
    proof (intro allI impI)
      fix j :: nat assume j: "j < 32"
      with False have "j < i" by simp
      with Cons.prems(3) have "bitmap_test_bit j (w # ws)" by simp
      with j show "bit w j" by (simp add: bitmap_test_bit_def)
    qed
    then have w: "w = - 1" by (rule word_all_ones)
    have sh: "bitmap_test_bit (32 + j) (w # ws) = bitmap_test_bit j ws" for j
    proof -
      have "(32 + j) div 32 = Suc (j div 32)" "(32 + j) mod 32 = j mod 32"
        by simp_all
      then show ?thesis
        by (simp add: bitmap_test_bit_def)
    qed
    have 1: "i - 32 < 32 * length ws" using Cons.prems(1) False by simp
    have 2: "\<not> bitmap_test_bit (i - 32) ws" using Cons.prems(2) i sh by metis
    have 3: "\<forall>j<i - 32. bitmap_test_bit j ws"
    proof (intro allI impI)
      fix j assume "j < i - 32"
      then have "32 + j < i" by simp
      with Cons.prems(3) have "bitmap_test_bit (32 + j) (w # ws)" by simp
      then show "bitmap_test_bit j ws" by (simp add: sh)
    qed
    have 4: "(t + 32) + int (i - 32) < md" using Cons.prems(4) False by simp
    from Cons.IH [OF 1 2 3 4] w Cons.prems(4) False show ?thesis
      by simp
  qed
qed

lemma taggedD:
  assumes "tagged q d ts"
  shows "\<exists>bqt. queue_tags q = Some bqt \<and>
    length (tag_map bqt) = d div 32 + 1 \<and>
    real_max_depth bqt = int (32 * (d div 32 + 1)) \<and>
    max_depth bqt = int d \<and>
    length (tag_index bqt) = d \<and>
    busy_list bqt = ts \<and>
    busy bqt = int (length ts) \<and>
    distinct ts \<and>
    (\<forall>p\<in>set ts. \<exists>r. rqs q p = Some r \<and> 0 \<le> tag r \<and> tag r < int d) \<and>
    inj_on (tg q) (set ts) \<and>
    bits_of (tag_map bqt) = {d..<32 * (d div 32 + 1)} \<union> tg q ` set ts \<and>
    set ts \<inter> set (queue_head q) = {}"
  using assms by (auto simp: tagged_def split: option.splits)

lemma depth_lt_bits: "(d::nat) < 32 * (d div 32 + 1)"
  by presburger

lemma init_tagged:
  assumes "0 \<le> depth" "depth < 2 ^ 31" "0 \<le> nr_requests q" "nr_requests q < 2 ^ 31"
  shows "\<exists>q0 bqt0. blk_queue_init_tags q depth True True True = Inr q0 \<and>
           queue_tags q0 = Some bqt0 \<and> 0 \<le> max_depth bqt0 \<and>
           max_depth bqt0 = min depth (2 * nr_requests q) \<and>
           busy bqt0 = 0 \<and>
           tagged q0 (nat (max_depth bqt0)) [] \<and>
           rqs q0 = rqs q \<and> queue_head q0 = queue_head q"
proof -
  define dd where "dd = min depth (2 * nr_requests q)"
  define d where "d = nat dd"
  from assms have dd: "0 \<le> dd" "dd = int d"
    by (auto simp: dd_def d_def)
  have clamp: "(if ulong depth > ulong (nr_requests q) * 2
                then sint (ulong (nr_requests q) * 2) else depth) = dd"
  proof -
    let ?n2 = "nr_requests q * 2"
    from assms have r: "0 \<le> ?n2" "?n2 < 2 ^ 32" "0 \<le> depth" "depth < 2 ^ 32"
      by simp_all
    then have c: "(ulong ?n2 < ulong depth) = (?n2 < depth)"
      by (rule ulong_less_iff)
    have "sint (ulong ?n2) = ?n2" if "?n2 < depth"
      using that assms by (intro sint_ulong) simp_all
    with c show ?thesis
      by (auto simp: ulong_arith dd_def min_def)
  qed
  have nb: "nat (dd div 32 + 1) = d div 32 + 1" "nat ((dd div 32 + 1) * 32) = 32 * (d div 32 + 1)"
    using dd by (simp_all add: nat_add_distrib nat_div_distrib nat_mult_distrib zdiv_int)
  have nb2: "nat (dd div 32 * 32 + 32) = 32 + 32 * (d div 32)"
    using nb(2) by (simp add: algebra_simps)
  have rb: "(dd div 32 + 1) * 32 = int (32 * (d div 32 + 1))"
    using dd by (simp add: zdiv_int)
  let ?m = "fold bitmap_set_bit [d ..< 32 * (d div 32 + 1)] (replicate (d div 32 + 1) 0)"
  have "\<forall>i\<in>set [d ..< 32 * (d div 32 + 1)]. i < 32 * length (replicate (d div 32 + 1) (0 :: 32 word))"
    by simp
  from bits_of_fold [OF this]
  have f: "length ?m = length (replicate (d div 32 + 1) (0 :: 32 word))"
          "bits_of ?m = bits_of (replicate (d div 32 + 1) 0) \<union> set [d ..< 32 * (d div 32 + 1)]"
    by blast+
  have m: "length ?m = d div 32 + 1" "bits_of ?m = {d..<32 * (d div 32 + 1)}"
    using f by (simp_all only: length_replicate bits_of_zero set_upt Un_empty_left)
  let ?bqt = "\<lparr>tag_index = replicate d None, tag_map = ?m, busy_list = [], busy = 0,
               max_depth = dd, real_max_depth = (dd div 32 + 1) * 32\<rparr>"
  have "blk_queue_init_tags q depth True True True = Inr (q\<lparr>queue_tags := Some ?bqt\<rparr>)"
    by (simp add: blk_queue_init_tags_def init_tag_map_def Let_def clamp nb nb2 flip: d_def)
  moreover have "tagged (q\<lparr>queue_tags := Some ?bqt\<rparr>) (nat (max_depth ?bqt)) []"
    using m rb dd(2) by (simp add: tagged_def flip: d_def)
  ultimately show ?thesis
    using dd by (auto simp: dd_def)
qed


lemma free_tag_exists:
  assumes "inj_on f (set ts)" "distinct ts" "length ts < d"
  shows "\<exists>i<d. i \<notin> f ` set ts"
proof (rule ccontr)
  assume "\<not> (\<exists>i<d. i \<notin> f ` set ts)"
  then have "{0..<d} \<subseteq> f ` set ts" by auto
  then have "card {0..<d} \<le> card (f ` set ts)"
    by (intro card_mono) auto
  also have "\<dots> = length ts"
    using assms(1,2) by (simp add: card_image distinct_card)
  finally show False using assms(3) by simp
qed

lemma start_tag_step:
  assumes inv: "tagged q d ts"
      and p: "rqs q p = Some r" "flags r AND REQ_QUEUED = 0" "p \<notin> set ts"
      and room: "length ts < d"
  shows "\<exists>q' t. blk_queue_start_tag q p = Inr (0, q') \<and> tagged q' d (p # ts) \<and>
           rqs q' = (rqs q)(p \<mapsto> r\<lparr>flags := flags r OR REQ_QUEUED, tag := int t\<rparr>) \<and>
           queue_head q' = removeAll p (queue_head q)"
proof -
  from taggedD [OF inv] obtain bqt where b: "queue_tags q = Some bqt"
    and len: "length (tag_map bqt) = d div 32 + 1"
    and rmd: "real_max_depth bqt = int (32 * (d div 32 + 1))"
    and md: "max_depth bqt = int d"
    and li: "length (tag_index bqt) = d"
    and bl: "busy_list bqt = ts"
    and bs: "busy bqt = int (length ts)"
    and dist: "distinct ts"
    and rng: "\<forall>p\<in>set ts. \<exists>r. rqs q p = Some r \<and> 0 \<le> tag r \<and> tag r < int d"
    and inj: "inj_on (tg q) (set ts)"
    and bits: "bits_of (tag_map bqt) = {d..<32 * (d div 32 + 1)} \<union> tg q ` set ts"
    and qh: "set ts \<inter> set (queue_head q) = {}"
    by blast
  let ?S = "bits_of (tag_map bqt)"
  from free_tag_exists [OF inj dist room] obtain i where i: "i < d" "i \<notin> tg q ` set ts"
    by blast
  with bits have iS: "i \<notin> ?S" by auto
  define t where "t = (LEAST i. i \<notin> ?S)"
  from iS have tS: "t \<notin> ?S" unfolding t_def by (rule LeastI)
  from iS have "t \<le> i" unfolding t_def by (rule Least_le)
  with i have td: "t < d" by simp
  have below: "j \<in> ?S" if "j < t" for j
    using that not_less_Least [of j "\<lambda>i. i \<notin> ?S"] by (auto simp: t_def)
  from td depth_lt_bits [of d] len have tl: "t < 32 * length (tag_map bqt)"
    by simp
  from tS tl have c: "\<not> bitmap_test_bit t (tag_map bqt)"
    by (simp add: bits_of_def)
  have s: "\<forall>j<t. bitmap_test_bit j (tag_map bqt)"
    using below by (auto simp: bits_of_def)
  from td md have "0 + int t < max_depth bqt" by simp
  from start_tag_scan_least [OF tl c s this]
  have scan: "start_tag_scan (tag_map bqt) 0 (max_depth bqt) = Inr (Some (int t))"
    by simp
  from tl have tw: "t div 32 < length (tag_map bqt)" by simp
  let ?r' = "r\<lparr>flags := flags r OR REQ_QUEUED, tag := int t\<rparr>"
  let ?bqt' = "bqt\<lparr>tag_map := bitmap_set_bit t (tag_map bqt),
                    tag_index := (tag_index bqt)[t := Some p],
                    busy_list := p # busy_list bqt, busy := busy bqt + 1\<rparr>"
  let ?q' = "q\<lparr>rqs := (rqs q)(p \<mapsto> ?r'), queue_head := removeAll p (queue_head q),
               queue_tags := Some ?bqt'\<rparr>"
  have st: "blk_queue_start_tag q p = Inr (0, ?q')"
    using b p(1,2) scan tw td li
    by (simp add: blk_queue_start_tag_def Let_def blkdev_dequeue_request_def)
  have tg_same: "tg ?q' x = tg q x" if "x \<in> set ts" for x
    using that p(3) by (auto simp: tg_def)
  have tg_p: "tg ?q' p = t"
    by (simp add: tg_def)
  have tnew: "t \<notin> tg q ` set ts"
    using tS bits by auto
  have inj': "inj_on (tg ?q') (set (p # ts))"
    using inj tnew tg_same tg_p p(3)
    by (auto simp: inj_on_def)
  have img: "tg ?q' ` set (p # ts) = insert t (tg q ` set ts)"
    using tg_same tg_p by auto
  have bits': "bits_of (tag_map ?bqt') = {d..<32 * (d div 32 + 1)} \<union> tg ?q' ` set (p # ts)"
    using bits_of_set [OF tl] bits img by auto
  have rng': "\<forall>x\<in>set (p # ts). case rqs ?q' x of None \<Rightarrow> False
                                     | Some r \<Rightarrow> 0 \<le> tag r \<and> tag r < int d"
    using rng td p(3) by (auto split: option.splits)
  have "tagged ?q' d (p # ts)"
    unfolding tagged_def
    using len rmd md li bl bs dist p(3) rng' inj' bits' qh
    by (simp del: set_simps) auto
  with st show ?thesis
    by (intro exI [of _ ?q'] exI [of _ t]) simp
qed

lemma tagged_frame:
  assumes "tagged q d ts"
      and "queue_tags q' = queue_tags q"
      and "\<forall>p\<in>set ts. rqs q' p = rqs q p"
      and "set ts \<inter> set (queue_head q') = {}"
  shows "tagged q' d ts"
proof -
  have "tg q' p = tg q p" if "p \<in> set ts" for p
    using that assms(3) by (simp add: tg_def)
  then have "inj_on (tg q') (set ts) = inj_on (tg q) (set ts)" "tg q' ` set ts = tg q ` set ts"
    by (auto simp: inj_on_def)
  with assms show ?thesis
    by (simp add: tagged_def split: option.splits)
qed

lemma end_tag_step:
  assumes inv: "tagged q d ts" and p: "p \<in> set ts"
  shows "\<exists>q' r. rqs q p = Some r \<and> blk_queue_end_tag q p = Inr q' \<and>
           tagged q' d (removeAll p ts) \<and>
           rqs q' = (rqs q)(p \<mapsto> r\<lparr>flags := flags r AND NOT REQ_QUEUED, tag := - 1\<rparr>) \<and>
           queue_head q' = queue_head q"
proof -
  from taggedD [OF inv] obtain bqt where b: "queue_tags q = Some bqt"
    and len: "length (tag_map bqt) = d div 32 + 1"
    and rmd: "real_max_depth bqt = int (32 * (d div 32 + 1))"
    and md: "max_depth bqt = int d"
    and li: "length (tag_index bqt) = d"
    and bl: "busy_list bqt = ts"
    and bs: "busy bqt = int (length ts)"
    and dist: "distinct ts"
    and rng: "\<forall>p\<in>set ts. \<exists>r. rqs q p = Some r \<and> 0 \<le> tag r \<and> tag r < int d"
    and inj: "inj_on (tg q) (set ts)"
    and bits: "bits_of (tag_map bqt) = {d..<32 * (d div 32 + 1)} \<union> tg q ` set ts"
    and qh: "set ts \<inter> set (queue_head q) = {}"
    by blast
  from rng p obtain r where r: "rqs q p = Some r" "0 \<le> tag r" "tag r < int d"
    by blast
  define t where "t = nat (tag r)"
  from r have t: "tag r = int t" "t < d" "tg q p = t"
    by (simp_all add: t_def tg_def)
  from t(2) depth_lt_bits [of d] len have tl: "t < 32 * length (tag_map bqt)"
    by simp
  then have tw: "t div 32 < length (tag_map bqt)" by simp
  from bits t(3) p have "t \<in> bits_of (tag_map bqt)" by auto
  then have busy: "bitmap_test_bit t (tag_map bqt)"
    by (simp add: bits_of_def)
  from t(2) depth_lt_bits [of d] rmd have below: "\<not> tag r \<ge> real_max_depth bqt"
    by (simp add: t(1))
  from qh p have "p \<notin> set (queue_head q)" by auto
  then have pq: "removeAll p (queue_head q) = queue_head q"
    by (rule removeAll_id)
  let ?r' = "r\<lparr>flags := flags r AND NOT REQ_QUEUED, tag := - 1\<rparr>"
  let ?bqt' = "bqt\<lparr>tag_map := bitmap_clear_bit t (tag_map bqt),
                    busy_list := removeAll p (busy_list bqt),
                    tag_index := (tag_index bqt)[t := None],
                    busy := busy bqt - 1\<rparr>"
  let ?q' = "q\<lparr>rqs := (rqs q)(p \<mapsto> ?r'), queue_head := removeAll p (queue_head q),
               queue_tags := Some ?bqt'\<rparr>"
  have e: "blk_queue_end_tag q p = Inr ?q'"
    using b r(1) t(1,2) below tw busy li
    by (simp add: blk_queue_end_tag_def Let_def)
  have tg_same: "tg ?q' x = tg q x" if "x \<in> set (removeAll p ts)" for x
    using that by (auto simp: tg_def)
  have inj': "inj_on (tg ?q') (set (removeAll p ts))"
    using inj tg_same by (auto simp: inj_on_def)
  have img: "tg ?q' ` set (removeAll p ts) = tg q ` set ts - {t}"
  proof -
    have "tg ?q' ` set (removeAll p ts) = tg q ` (set ts - {p})"
      using tg_same by (auto simp: image_iff)
    also have "\<dots> = tg q ` set ts - {tg q p}"
      using inj p by (auto simp: inj_on_def)
    finally show ?thesis by (simp add: t(3))
  qed
  have bits': "bits_of (tag_map ?bqt') = {d..<32 * (d div 32 + 1)} \<union> tg ?q' ` set (removeAll p ts)"
    using bits_of_clear [OF tl] bits img t(2) by auto
  have rng': "\<forall>x\<in>set (removeAll p ts). case rqs ?q' x of None \<Rightarrow> False
                                     | Some r \<Rightarrow> 0 \<le> tag r \<and> tag r < int d"
    using rng by (auto split: option.splits)
  have l': "int (length (removeAll p ts)) = int (length ts) - 1"
    using dist p by (simp add: distinct_remove1_removeAll [symmetric] length_remove1)
       (metis length_pos_if_in_set of_nat_1 of_nat_diff Suc_leI One_nat_def)
  have dist': "distinct (removeAll p ts)"
    using dist by (simp add: distinct_removeAll)
  have qh': "set (removeAll p ts) \<inter> set (removeAll p (queue_head q)) = {}"
    using qh by auto
  have "tagged ?q' d (removeAll p ts)"
    unfolding tagged_def
    using len rmd md li bl bs dist' rng' inj' bits' qh' l'
    by (simp del: set_removeAll)
  with e r(1) pq show ?thesis
    by (intro exI [of _ ?q'] exI [of _ r]) simp
qed

lemma filter_removeAll_Cons:
  "filter (\<lambda>x. x \<notin> set l) (removeAll p xs) = filter (\<lambda>x. x \<notin> set (p # l)) xs"
  by (induction xs) auto

lemma invalidate_tag_step:
  assumes inv: "tagged q d ts" and p: "p \<in> set ts"
  shows "\<exists>q' r. rqs q p = Some r \<and> invalidate_tag q p = Inr q' \<and>
           tagged q' d (removeAll p ts) \<and>
           rqs q' = (rqs q)(p \<mapsto> r\<lparr>flags := (flags r AND NOT REQ_QUEUED) AND NOT REQ_STARTED,
                                    tag := - 1, rq_q := True\<rparr>) \<and>
           queue_head q' = queue_head q @ [p]"
proof -
  from end_tag_step [OF inv p] obtain q1 r where
    r: "rqs q p = Some r" and e: "blk_queue_end_tag q p = Inr q1"
    and inv1: "tagged q1 d (removeAll p ts)"
    and s1: "rqs q1 = (rqs q)(p \<mapsto> r\<lparr>flags := flags r AND NOT REQ_QUEUED, tag := - 1\<rparr>)"
    and h1: "queue_head q1 = queue_head q"
    by blast
  from taggedD [OF inv] p r have nt: "tag r \<noteq> - 1"
    by fastforce
  from taggedD [OF inv] p have pq: "p \<notin> set (queue_head q)"
    by blast
  from taggedD [OF inv1] obtain bqt1 where b1: "queue_tags q1 = Some bqt1"
    "busy_list bqt1 = removeAll p ts"
    by blast
  let ?r2 = "r\<lparr>flags := (flags r AND NOT REQ_QUEUED) AND NOT REQ_STARTED, tag := - 1\<rparr>"
  let ?q2 = "q1\<lparr>rqs := (rqs q1)(p \<mapsto> ?r2)\<rparr>"
  have nl: "\<not> on_list ?q2 p"
    using b1 h1 pq by (simp add: on_list_def)
  let ?q3 = "?q2\<lparr>rqs := (rqs ?q2)(p \<mapsto> ?r2\<lparr>rq_q := True\<rparr>), queue_head := queue_head ?q2 @ [p]\<rparr>"
  have add: "elv_add_request_back ?q2 p = Inr ?q3"
    using nl by (simp add: elv_add_request_back_def)
  have req: "r\<lparr>tag := - 1, flags := (flags r AND NOT REQ_QUEUED) AND NOT REQ_STARTED\<rparr> = ?r2"
    by simp
  have it: "invalidate_tag q p = Inr ?q3"
    using r nt e s1 add by (simp add: invalidate_tag_def req)
  have fr: "set (removeAll p ts) \<inter> set (queue_head ?q3) = {}"
    using taggedD [OF inv1] h1 by auto
  have "tagged ?q3 d (removeAll p ts)"
    by (rule tagged_frame [OF inv1 _ _ fr]) simp_all
  with it r s1 h1 show ?thesis
    by (intro exI [of _ ?q3] exI [of _ r]) simp
qed

lemma start_tags_run:
  assumes "tagged q d ts" "distinct ps" "set ps \<inter> set ts = {}" "length ts + length ps \<le> d"
      and "\<forall>p\<in>set ps. \<exists>r. rqs q p = Some r \<and> flags r AND REQ_QUEUED = 0"
  shows "\<exists>q'. start_tags q ps = Inr (replicate (length ps) 0, q') \<and>
           tagged q' d (rev ps @ ts) \<and>
           (\<forall>p. p \<notin> set ps \<longrightarrow> rqs q' p = rqs q p) \<and>
           (\<forall>p\<in>set ps. \<exists>r t. rqs q p = Some r \<and>
               rqs q' p = Some (r\<lparr>flags := flags r OR REQ_QUEUED, tag := t\<rparr>)) \<and>
           queue_head q' = filter (\<lambda>x. x \<notin> set ps) (queue_head q)"
  using assms
proof (induction ps arbitrary: q ts)
  case Nil
  then show ?case by simp
next
  case (Cons p ps)
  from Cons.prems(5) obtain r where r: "rqs q p = Some r" "flags r AND REQ_QUEUED = 0"
    by auto
  from Cons.prems(3) have pn: "p \<notin> set ts" by simp
  from Cons.prems(4) have room: "length ts < d" by simp
  from start_tag_step [OF Cons.prems(1) r pn room] obtain q1 t where
    st: "blk_queue_start_tag q p = Inr (0, q1)" and inv1: "tagged q1 d (p # ts)"
    and s1: "rqs q1 = (rqs q)(p \<mapsto> r\<lparr>flags := flags r OR REQ_QUEUED, tag := int t\<rparr>)"
    and h1: "queue_head q1 = removeAll p (queue_head q)"
    by blast
  have d1: "distinct ps" and i1: "set ps \<inter> set (p # ts) = {}"
    and l1: "length (p # ts) + length ps \<le> d"
    using Cons.prems(2,3,4) by auto
  have f1: "\<forall>x\<in>set ps. \<exists>r. rqs q1 x = Some r \<and> flags r AND REQ_QUEUED = 0"
    using Cons.prems(2,5) s1 by auto
  from Cons.IH [OF inv1 d1 i1 l1 f1] obtain q' where
    run: "start_tags q1 ps = Inr (replicate (length ps) 0, q')"
    and inv': "tagged q' d (rev ps @ p # ts)"
    and same: "\<forall>x. x \<notin> set ps \<longrightarrow> rqs q' x = rqs q1 x"
    and upd: "\<forall>x\<in>set ps. \<exists>r t. rqs q1 x = Some r \<and>
               rqs q' x = Some (r\<lparr>flags := flags r OR REQ_QUEUED, tag := t\<rparr>)"
    and h': "queue_head q' = filter (\<lambda>x. x \<notin> set ps) (queue_head q1)"
    by blast
  have a: "start_tags q (p # ps) = Inr (replicate (length (p # ps)) 0, q')"
    using st run by simp
  have b: "tagged q' d (rev (p # ps) @ ts)"
    using inv' by simp
  have c: "\<forall>x. x \<notin> set (p # ps) \<longrightarrow> rqs q' x = rqs q x"
    using same s1 by auto
  have pp: "p \<notin> set ps" using Cons.prems(2) by simp
  have e: "\<forall>x\<in>set (p # ps). \<exists>r t. rqs q x = Some r \<and>
               rqs q' x = Some (r\<lparr>flags := flags r OR REQ_QUEUED, tag := t\<rparr>)"
  proof
    fix x assume "x \<in> set (p # ps)"
    then consider "x = p" | "x \<in> set ps" "x \<noteq> p" using pp by auto
    then show "\<exists>r t. rqs q x = Some r \<and>
               rqs q' x = Some (r\<lparr>flags := flags r OR REQ_QUEUED, tag := t\<rparr>)"
    proof cases
      case 1
      with same pp s1 r show ?thesis by auto
    next
      case 2
      from s1 2(2) have "rqs q1 x = rqs q x" by simp
      with upd 2(1) show ?thesis by metis
    qed
  qed
  have f: "queue_head q' = filter (\<lambda>x. x \<notin> set (p # ps)) (queue_head q)"
    using h' h1 by (simp only: filter_removeAll_Cons)
  from a b c e f show ?case
    by blast
qed

lemma end_tags_run:
  assumes "tagged q d ts" "distinct l" "set l \<subseteq> set ts"
  shows "\<exists>q'. end_tags q l = Inr q' \<and>
           tagged q' d (filter (\<lambda>x. x \<notin> set l) ts) \<and>
           (\<forall>p. p \<notin> set l \<longrightarrow> rqs q' p = rqs q p) \<and>
           (\<forall>p\<in>set l. \<exists>r. rqs q p = Some r \<and>
               rqs q' p = Some (r\<lparr>flags := flags r AND NOT REQ_QUEUED, tag := - 1\<rparr>)) \<and>
           queue_head q' = queue_head q"
  using assms
proof (induction l arbitrary: q ts)
  case Nil
  then show ?case by simp
next
  case (Cons p l)
  from Cons.prems have p: "p \<in> set ts" and pl: "p \<notin> set l" and dl: "distinct l"
    by auto
  from end_tag_step [OF Cons.prems(1) p] obtain q1 r where
    r: "rqs q p = Some r" and e: "blk_queue_end_tag q p = Inr q1"
    and inv1: "tagged q1 d (removeAll p ts)"
    and s1: "rqs q1 = (rqs q)(p \<mapsto> r\<lparr>flags := flags r AND NOT REQ_QUEUED, tag := - 1\<rparr>)"
    and h1: "queue_head q1 = queue_head q"
    by blast
  have sub: "set l \<subseteq> set (removeAll p ts)"
    using Cons.prems(3) pl by auto
  from Cons.IH [OF inv1 dl sub] obtain q' where
    run: "end_tags q1 l = Inr q'"
    and inv': "tagged q' d (filter (\<lambda>x. x \<notin> set l) (removeAll p ts))"
    and same: "\<forall>x. x \<notin> set l \<longrightarrow> rqs q' x = rqs q1 x"
    and upd: "\<forall>x\<in>set l. \<exists>r. rqs q1 x = Some r \<and>
               rqs q' x = Some (r\<lparr>flags := flags r AND NOT REQ_QUEUED, tag := - 1\<rparr>)"
    and h': "queue_head q' = queue_head q1"
    by blast
  have a: "end_tags q (p # l) = Inr q'"
    using e run by simp
  have "filter (\<lambda>x. x \<notin> set l) (removeAll p ts) = filter (\<lambda>x. x \<notin> set (p # l)) ts"
    by (rule filter_removeAll_Cons)
  with inv' have b: "tagged q' d (filter (\<lambda>x. x \<notin> set (p # l)) ts)"
    by simp
  have c: "\<forall>x. x \<notin> set (p # l) \<longrightarrow> rqs q' x = rqs q x"
    using same s1 by auto
  have e': "\<forall>x\<in>set (p # l). \<exists>r. rqs q x = Some r \<and>
               rqs q' x = Some (r\<lparr>flags := flags r AND NOT REQ_QUEUED, tag := - 1\<rparr>)"
  proof
    fix x assume "x \<in> set (p # l)"
    then consider "x = p" | "x \<in> set l" "x \<noteq> p" using pl by auto
    then show "\<exists>r. rqs q x = Some r \<and>
               rqs q' x = Some (r\<lparr>flags := flags r AND NOT REQ_QUEUED, tag := - 1\<rparr>)"
    proof cases
      case 1
      with same pl s1 r show ?thesis by auto
    next
      case 2
      from s1 2(2) have "rqs q1 x = rqs q x" by simp
      with upd 2(1) show ?thesis by metis
    qed
  qed
  from a b c e' h' h1 show ?case
    by auto
qed

lemma invalidate_tags_run:
  assumes "tagged q d ts" "distinct l" "set l \<subseteq> set ts"
  shows "\<exists>q'. invalidate_tags_loop l q = Inr q' \<and>
           tagged q' d (filter (\<lambda>x. x \<notin> set l) ts) \<and>
           (\<forall>p. p \<notin> set l \<longrightarrow> rqs q' p = rqs q p) \<and>
           (\<forall>p\<in>set l. \<exists>r. rqs q p = Some r \<and>
               rqs q' p = Some (r\<lparr>flags := (flags r AND NOT REQ_QUEUED) AND NOT REQ_STARTED,
                                  tag := - 1, rq_q := True\<rparr>)) \<and>
           queue_head q' = queue_head q @ l"
  using assms
proof (induction l arbitrary: q ts)
  case Nil
  then show ?case by simp
next
  case (Cons p l)
  from Cons.prems have p: "p \<in> set ts" and pl: "p \<notin> set l" and dl: "distinct l"
    by auto
  from invalidate_tag_step [OF Cons.prems(1) p] obtain q1 r where
    r: "rqs q p = Some r" and e: "invalidate_tag q p = Inr q1"
    and inv1: "tagged q1 d (removeAll p ts)"
    and s1: "rqs q1 = (rqs q)(p \<mapsto> r\<lparr>flags := (flags r AND NOT REQ_QUEUED) AND NOT REQ_STARTED,
                                    tag := - 1, rq_q := True\<rparr>)"
    and h1: "queue_head q1 = queue_head q @ [p]"
    by blast
  have sub: "set l \<subseteq> set (removeAll p ts)"
    using Cons.prems(3) pl by auto
  from Cons.IH [OF inv1 dl sub] obtain q' where
    run: "invalidate_tags_loop l q1 = Inr q'"
    and inv': "tagged q' d (filter (\<lambda>x. x \<notin> set l) (removeAll p ts))"
    and same: "\<forall>x. x \<notin> set l \<longrightarrow> rqs q' x = rqs q1 x"
    and upd: "\<forall>x\<in>set l. \<exists>r. rqs q1 x = Some r \<and>
               rqs q' x = Some (r\<lparr>flags := (flags r AND NOT REQ_QUEUED) AND NOT REQ_STARTED,
                                  tag := - 1, rq_q := True\<rparr>)"
    and h': "queue_head q' = queue_head q1 @ l"
    by blast
  have a: "invalidate_tags_loop (p # l) q = Inr q'"
    using e run by simp
  have "filter (\<lambda>x. x \<notin> set l) (removeAll p ts) = filter (\<lambda>x. x \<notin> set (p # l)) ts"
    by (rule filter_removeAll_Cons)
  with inv' have b: "tagged q' d (filter (\<lambda>x. x \<notin> set (p # l)) ts)"
    by simp
  have c: "\<forall>x. x \<notin> set (p # l) \<longrightarrow> rqs q' x = rqs q x"
    using same s1 by auto
  have e': "\<forall>x\<in>set (p # l). \<exists>r. rqs q x = Some r \<and>
               rqs q' x = Some (r\<lparr>flags := (flags r AND NOT REQ_QUEUED) AND NOT REQ_STARTED,
                                  tag := - 1, rq_q := True\<rparr>)"
  proof
    fix x assume "x \<in> set (p # l)"
    then consider "x = p" | "x \<in> set l" "x \<noteq> p" using pl by auto
    then show "\<exists>r. rqs q x = Some r \<and>
               rqs q' x = Some (r\<lparr>flags := (flags r AND NOT REQ_QUEUED) AND NOT REQ_STARTED,
                                  tag := - 1, rq_q := True\<rparr>)"
    proof cases
      case 1
      with same pl s1 r show ?thesis by auto
    next
      case 2
      from s1 2(2) have "rqs q1 x = rqs q x" by simp
      with upd 2(1) show ?thesis by metis
    qed
  qed
  from a b c e' h' h1 show ?case
    by auto
qed

lemma req_queued_set: "(f OR REQ_QUEUED) AND REQ_QUEUED \<noteq> 0"
  by (simp add: REQ_QUEUED_def REQ_bits flip: bit_iff_and_push_bit_not_eq_0)

lemma req_queued_clear:
  "(f AND NOT REQ_QUEUED) AND REQ_QUEUED = 0"
  "((f AND NOT REQ_QUEUED) AND NOT REQ_STARTED) AND REQ_QUEUED = 0"
  "((f AND NOT REQ_QUEUED) AND NOT REQ_STARTED) AND REQ_STARTED = 0"
  by (auto simp: bit_eq_iff bit_simps)

lemma count_list_distinct: "distinct xs \<Longrightarrow> x \<in> set xs \<Longrightarrow> count_list xs x = 1"
  by (induction xs) auto

lemma start_tag_scan_full:
  assumes "ws \<noteq> []" "\<forall>w\<in>set ws. w = - 1" "md \<le> t + 32 * int (length ws)"
  shows "start_tag_scan ws t md = Inr None"
  using assms
proof (induction ws arbitrary: t)
  case Nil
  then show ?case by simp
next
  case (Cons w ws)
  from Cons.prems(2) have w: "w = - 1"
    by simp
  show ?case
  proof (cases "t + 32 \<ge> md")
    case True
    with w show ?thesis by simp
  next
    case False
    with Cons.prems(3) have ne: "ws \<noteq> []"
      by auto
    from Cons.prems(3) have "md \<le> (t + 32) + 32 * int (length ws)"
      by simp
    with ne Cons.prems(2) have "start_tag_scan ws (t + 32) md = Inr None"
      by (intro Cons.IH) simp_all
    with w False show ?thesis by simp
  qed
qed

lemma start_tag_full:
  assumes inv: "tagged q d ts" and full: "length ts = d"
      and p: "rqs q p = Some r" "flags r AND REQ_QUEUED = 0"
  shows "blk_queue_start_tag q p = Inr (1, q)"
proof -
  from taggedD [OF inv] obtain bqt where b: "queue_tags q = Some bqt"
    and len: "length (tag_map bqt) = d div 32 + 1"
    and md: "max_depth bqt = int d"
    and dist: "distinct ts"
    and rng: "\<forall>p\<in>set ts. \<exists>r. rqs q p = Some r \<and> 0 \<le> tag r \<and> tag r < int d"
    and inj: "inj_on (tg q) (set ts)"
    and bits: "bits_of (tag_map bqt) = {d..<32 * (d div 32 + 1)} \<union> tg q ` set ts"
    by blast
  have sub: "tg q ` set ts \<subseteq> {0..<d}"
    using rng by (fastforce simp: tg_def)
  have "card (tg q ` set ts) = d"
    using inj dist full by (simp add: card_image distinct_card)
  with sub have "tg q ` set ts = {0..<d}"
    by (intro card_subset_eq) simp_all
  with bits depth_lt_bits [of d] have all: "bits_of (tag_map bqt) = {0..<32 * (d div 32 + 1)}"
    by auto
  have ones: "w = - 1" if "w \<in> set (tag_map bqt)" for w
  proof -
    from that obtain k where k: "k < length (tag_map bqt)" "tag_map bqt ! k = w"
      by (auto simp: in_set_conv_nth)
    have "bit w j" if "j < 32" for j
    proof -
      from that k(1) len have "32 * k + j \<in> bits_of (tag_map bqt)"
        unfolding all by auto
      with that k(2) show ?thesis
        by (simp add: bits_of_def bitmap_test_bit_def)
    qed
    then show ?thesis
      by (intro word_all_ones) simp
  qed
  from len have ne: "tag_map bqt \<noteq> []"
    by auto
  from len depth_lt_bits [of d] have "max_depth bqt \<le> 0 + 32 * int (length (tag_map bqt))"
    unfolding md by simp
  with ne ones have "start_tag_scan (tag_map bqt) 0 (max_depth bqt) = Inr None"
    by (intro start_tag_scan_full) simp_all
  with b p show ?thesis
    by (simp add: blk_queue_start_tag_def)
qed

lemma start_tags_append:
  "start_tags q (ps @ [p]) =
     (case start_tags q ps of
        Inl f \<Rightarrow> Inl f
      | Inr (rets, q1) \<Rightarrow>
          (case blk_queue_start_tag q1 p of
             Inl f \<Rightarrow> Inl f
           | Inr (ret, q2) \<Rightarrow> Inr (rets @ [ret], q2)))"
  by (induction ps arbitrary: q) (auto split: sum.splits prod.splits)

text \<open>
  Claim C4, as stated, at a queue of four request slots whose tags are initialised for the
  depth 64. \<open>init_tag_map\<close> cuts the depth down to twice \<open>nr_requests\<close>, which is 8.
  Nine requests, fewer than the depth asked for, start a tag in turn: the first eight calls
  return 0, the ninth finds no free tag, returns 1 and leaves its request without a tag. With
  2147483650 request slots and the depth 10 the product \<open>nr_requests * 2\<close>, computed in
  32 bits, is 4, and the tag structure gets the depth 4.
\<close>

theorem tags_beyond_cap_counterexample:
  "int (length [1, 2, 3, 4, 5, 6, 7, 8, 9 :: nat]) \<le> 64 \<and>
   (case blk_queue_init_tags example_nine 64 True True True of
      Inl e \<Rightarrow> False
    | Inr q0 \<Rightarrow>
        (case start_tags q0 [1, 2, 3, 4, 5, 6, 7, 8, 9] of
           Inl f \<Rightarrow> False
         | Inr (rets, q1) \<Rightarrow>
             rets = [0, 0, 0, 0, 0, 0, 0, 0, 1] \<and>
             map_option tag (rqs q1 9) = Some (- 1))) \<and>
   10 \<le> 2 * nr_requests (example_nine\<lparr>nr_requests := 2147483650\<rparr>) \<and>
   (case blk_queue_init_tags (example_nine\<lparr>nr_requests := 2147483650\<rparr>) 10 True True True of
      Inl e \<Rightarrow> False
    | Inr q0 \<Rightarrow> map_option max_depth (queue_tags q0) = Some 4)"
proof -
  have wrap: "10 \<le> 2 * nr_requests (example_nine\<lparr>nr_requests := 2147483650\<rparr>) \<and>
    (case blk_queue_init_tags (example_nine\<lparr>nr_requests := 2147483650\<rparr>) 10 True True True of
      Inl e \<Rightarrow> False
    | Inr q0 \<Rightarrow> map_option max_depth (queue_tags q0) = Some 4)"
    by (simp add: blk_queue_init_tags_def init_tag_map_def Let_def ulong_def word_less_def)
  let ?ps = "[1, 2, 3, 4, 5, 6, 7, 8 :: nat]"
  have nr: "nr_requests example_nine = 4"
    by (simp add: example_nine_def)
  have rq: "\<forall>p\<in>set (?ps @ [9]). \<exists>r. rqs example_nine p = Some r \<and> flags r AND REQ_QUEUED = 0 \<and>
              tag r = - 1"
    by (simp add: example_nine_def example_pending_def example_rq_def
          REQ_CMD_def REQ_QUEUED_def REQ_bits)
  from init_tagged [of 64 example_nine] nr
  have "\<exists>q0. blk_queue_init_tags example_nine 64 True True True = Inr q0 \<and>
          tagged q0 8 [] \<and> rqs q0 = rqs example_nine"
    by auto
  then obtain q0 where
    i: "blk_queue_init_tags example_nine 64 True True True = Inr q0"
    and inv0: "tagged q0 8 []" and s0: "rqs q0 = rqs example_nine"
    by blast
  have fresh: "\<forall>p\<in>set ?ps. \<exists>r. rqs q0 p = Some r \<and> flags r AND REQ_QUEUED = 0"
    using rq s0 by auto
  have "\<exists>q'. start_tags q0 ?ps = Inr (replicate (length ?ps) 0, q') \<and>
           tagged q' 8 (rev ?ps @ []) \<and>
           (\<forall>p. p \<notin> set ?ps \<longrightarrow> rqs q' p = rqs q0 p) \<and>
           (\<forall>p\<in>set ?ps. \<exists>r t. rqs q0 p = Some r \<and>
               rqs q' p = Some (r\<lparr>flags := flags r OR REQ_QUEUED, tag := t\<rparr>)) \<and>
           queue_head q' = filter (\<lambda>x. x \<notin> set ?ps) (queue_head q0)"
    using inv0 _ _ _ fresh by (rule start_tags_run) simp_all
  then obtain q1 where
    run: "start_tags q0 ?ps = Inr (replicate (length ?ps) 0, q1)"
    and inv1: "tagged q1 8 (rev ?ps @ [])"
    and fr: "\<forall>p. p \<notin> set ?ps \<longrightarrow> rqs q1 p = rqs q0 p"
    by blast
  from fr s0 have "rqs q1 9 = rqs example_nine 9"
    by simp
  with rq obtain r where r: "rqs q1 9 = Some r" "flags r AND REQ_QUEUED = 0" "tag r = - 1"
    by auto
  from inv1 have full: "blk_queue_start_tag q1 9 = Inr (1, q1)"
    using _ r(1,2) by (rule start_tag_full) simp
  have run': "start_tags q0 ?ps = Inr ([0, 0, 0, 0, 0, 0, 0, 0], q1)"
    using run by (simp add: numeral_eq_Suc del: start_tags.simps)
  from start_tags_append [of q0 ?ps 9] run' full
  have "start_tags q0 [1, 2, 3, 4, 5, 6, 7, 8, 9] = Inr ([0, 0, 0, 0, 0, 0, 0, 0, 1], q1)"
    by (simp del: start_tags.simps)
  with i r wrap show ?thesis
    by (simp del: start_tags.simps)
qed

text \<open>
  Claim C4, amended. Take a queue with fewer than \<open>2 ^ 31\<close> request slots whose tags have
  just been initialised for a requested depth that is not negative. The depth of the tag
  structure is the requested depth cut down to twice \<open>nr_requests\<close>, and in the bitmap every
  bit below it is clear. Take \<open>N\<close> distinct requests of the queue, none flagged as queued,
  with \<open>N\<close> at most that depth. Starting a tag for each in turn returns 0 every time and gives
  them \<open>N\<close> pairwise distinct tags below the depth; the requests are flagged as queued and
  are off the pending list. Ending the \<open>N\<close> tags makes the bitmap equal to the initial one,
  with the busy count 0, the busy list empty and no request holding a tag. Invalidating the
  tags instead does the same to the tag structure and puts every request that held a tag on
  the pending list exactly once, with its tag ended and its queued and started flags clear.
\<close>

theorem tag_round_trip:
  assumes d0: "0 \<le> depth" "depth < 2 ^ 31" "0 \<le> nr_requests q" "nr_requests q < 2 ^ 31"
      and init: "blk_queue_init_tags q depth True True True = Inr q0" "queue_tags q0 = Some bqt0"
      and ps: "distinct ps" "int (length ps) \<le> min depth (2 * nr_requests q)"
              "\<forall>p\<in>set ps. \<exists>r. rqs q p = Some r \<and> flags r AND REQ_QUEUED = 0"
  shows "max_depth bqt0 = min depth (2 * nr_requests q) \<and>
         (\<exists>q1. start_tags q0 ps = Inr (replicate (length ps) 0, q1) \<and>
           distinct (map (\<lambda>p. tag (the (rqs q1 p))) ps) \<and>
           (\<forall>p\<in>set ps. \<exists>r. rqs q1 p = Some r \<and> 0 \<le> tag r \<and> tag r < max_depth bqt0 \<and>
              flags r AND REQ_QUEUED \<noteq> 0) \<and>
           (\<forall>p\<in>set ps. p \<notin> set (queue_head q1)) \<and>
           (\<exists>q2 b2. end_tags q1 ps = Inr q2 \<and> queue_tags q2 = Some b2 \<and>
              tag_map b2 = tag_map bqt0 \<and> busy b2 = 0 \<and> busy_list b2 = [] \<and>
              (\<forall>p\<in>set ps. \<exists>r. rqs q2 p = Some r \<and> tag r = - 1 \<and>
                 flags r AND REQ_QUEUED = 0)) \<and>
           (\<exists>q3 b3. blk_queue_invalidate_tags q1 = Inr q3 \<and> queue_tags q3 = Some b3 \<and>
              tag_map b3 = tag_map bqt0 \<and> busy b3 = 0 \<and> busy_list b3 = [] \<and>
              (\<forall>p\<in>set ps. count_list (queue_head q3) p = 1 \<and>
                 (\<exists>r. rqs q3 p = Some r \<and> tag r = - 1 \<and>
                    flags r AND REQ_QUEUED = 0 \<and> flags r AND REQ_STARTED = 0))))"
proof -
  from init_tagged [OF d0] init obtain
    md0: "0 \<le> max_depth bqt0" and mde: "max_depth bqt0 = min depth (2 * nr_requests q)"
    and inv0: "tagged q0 (nat (max_depth bqt0)) []"
    and s0: "rqs q0 = rqs q"
    by auto
  define d where "d = nat (max_depth bqt0)"
  from md0 have dm: "int d = max_depth bqt0" by (simp add: d_def)
  from inv0 have inv0: "tagged q0 d []" by (simp add: d_def)
  from taggedD [OF inv0] init(2) have
    len0: "length (tag_map bqt0) = d div 32 + 1"
    and bits0: "bits_of (tag_map bqt0) = {d..<32 * (d div 32 + 1)}"
    by auto
  from ps(2) dm mde have "int (length ps) \<le> int d"
    by simp
  then have room: "length [] + length ps \<le> d"
    by simp
  have fresh: "\<forall>p\<in>set ps. \<exists>r. rqs q0 p = Some r \<and> flags r AND REQ_QUEUED = 0"
    using ps(3) s0 by simp
  from start_tags_run [OF inv0 ps(1) _ room fresh] obtain q1 where
    run: "start_tags q0 ps = Inr (replicate (length ps) 0, q1)"
    and inv1: "tagged q1 d (rev ps)"
    and upd1: "\<forall>p\<in>set ps. \<exists>r t. rqs q0 p = Some r \<and>
               rqs q1 p = Some (r\<lparr>flags := flags r OR REQ_QUEUED, tag := t\<rparr>)"
    and h1: "queue_head q1 = filter (\<lambda>x. x \<notin> set ps) (queue_head q0)"
    by auto
  from taggedD [OF inv1] obtain bqt1 where b1: "queue_tags q1 = Some bqt1"
    and bl1: "busy_list bqt1 = rev ps"
    and rng1: "\<forall>p\<in>set (rev ps). \<exists>r. rqs q1 p = Some r \<and> 0 \<le> tag r \<and> tag r < int d"
    and inj1: "inj_on (tg q1) (set (rev ps))"
    by blast
  have dist: "distinct (map (\<lambda>p. tag (the (rqs q1 p))) ps)"
  proof -
    have "inj_on (\<lambda>p. tag (the (rqs q1 p))) (set ps)"
    proof (rule inj_onI)
      fix x y assume "x \<in> set ps" "y \<in> set ps"
        and "tag (the (rqs q1 x)) = tag (the (rqs q1 y))"
      then have "tg q1 x = tg q1 y" by (simp add: tg_def)
      with inj1 \<open>x \<in> set ps\<close> \<open>y \<in> set ps\<close> show "x = y"
        by (auto simp: inj_on_def)
    qed
    with ps(1) show ?thesis by (simp add: distinct_map)
  qed
  have tags1: "\<forall>p\<in>set ps. \<exists>r. rqs q1 p = Some r \<and> 0 \<le> tag r \<and> tag r < max_depth bqt0 \<and>
              flags r AND REQ_QUEUED \<noteq> 0"
  proof
    fix p assume p: "p \<in> set ps"
    with rng1 obtain r where r: "rqs q1 p = Some r" "0 \<le> tag r" "tag r < int d"
      by auto
    from upd1 p obtain r0 t where
      "rqs q1 p = Some (r0\<lparr>flags := flags r0 OR REQ_QUEUED, tag := t\<rparr>)"
      by blast
    with r(1) have "flags r = flags r0 OR REQ_QUEUED"
      by auto
    with req_queued_set [of "flags r0"] have "flags r AND REQ_QUEUED \<noteq> 0"
      by simp
    with r dm show "\<exists>r. rqs q1 p = Some r \<and> 0 \<le> tag r \<and> tag r < max_depth bqt0 \<and>
              flags r AND REQ_QUEUED \<noteq> 0"
      by simp
  qed
  have off: "\<forall>p\<in>set ps. p \<notin> set (queue_head q1)"
    using h1 by simp
  have sub: "set ps \<subseteq> set (rev ps)" "set (rev ps) \<subseteq> set (rev ps)" "distinct (rev ps)"
    using ps(1) by simp_all
  have restored: "tag_map b = tag_map bqt0 \<and> busy b = 0 \<and> busy_list b = []"
    if "tagged q' d []" "queue_tags q' = Some b" for q' b
  proof -
    from taggedD [OF that(1)] that(2) have
      "length (tag_map b) = d div 32 + 1" "bits_of (tag_map b) = {d..<32 * (d div 32 + 1)}"
      "busy b = 0" "busy_list b = []"
      by auto
    with len0 bits0 bits_of_eqI [of "tag_map b" "tag_map bqt0"] show ?thesis
      by simp
  qed
  have ended: "\<exists>q2 b2. end_tags q1 ps = Inr q2 \<and> queue_tags q2 = Some b2 \<and>
              tag_map b2 = tag_map bqt0 \<and> busy b2 = 0 \<and> busy_list b2 = [] \<and>
              (\<forall>p\<in>set ps. \<exists>r. rqs q2 p = Some r \<and> tag r = - 1 \<and>
                 flags r AND REQ_QUEUED = 0)"
  proof -
    from end_tags_run [OF inv1 ps(1) sub(1)] obtain q2 where
      e: "end_tags q1 ps = Inr q2"
      and inv2: "tagged q2 d (filter (\<lambda>x. x \<notin> set ps) (rev ps))"
      and upd2: "\<forall>p\<in>set ps. \<exists>r. rqs q1 p = Some r \<and>
               rqs q2 p = Some (r\<lparr>flags := flags r AND NOT REQ_QUEUED, tag := - 1\<rparr>)"
      by blast
    have "filter (\<lambda>x. x \<notin> set ps) (rev ps) = []"
      by (simp add: filter_empty_conv)
    with inv2 have inv2: "tagged q2 d []" by simp
    from taggedD [OF inv2] obtain b2 where b2: "queue_tags q2 = Some b2"
      by blast
    have "\<forall>p\<in>set ps. \<exists>r. rqs q2 p = Some r \<and> tag r = - 1 \<and> flags r AND REQ_QUEUED = 0"
      using upd2 by (fastforce simp: req_queued_clear)
    with e b2 restored [OF inv2 b2] show ?thesis
      by blast
  qed
  have invalidated: "\<exists>q3 b3. blk_queue_invalidate_tags q1 = Inr q3 \<and> queue_tags q3 = Some b3 \<and>
              tag_map b3 = tag_map bqt0 \<and> busy b3 = 0 \<and> busy_list b3 = [] \<and>
              (\<forall>p\<in>set ps. count_list (queue_head q3) p = 1 \<and>
                 (\<exists>r. rqs q3 p = Some r \<and> tag r = - 1 \<and>
                    flags r AND REQ_QUEUED = 0 \<and> flags r AND REQ_STARTED = 0))"
  proof -
    from invalidate_tags_run [OF inv1 sub(3) sub(2)] obtain q3 where
      e: "invalidate_tags_loop (rev ps) q1 = Inr q3"
      and inv3: "tagged q3 d (filter (\<lambda>x. x \<notin> set (rev ps)) (rev ps))"
      and upd3: "\<forall>p\<in>set (rev ps). \<exists>r. rqs q1 p = Some r \<and>
               rqs q3 p = Some (r\<lparr>flags := (flags r AND NOT REQ_QUEUED) AND NOT REQ_STARTED,
                                  tag := - 1, rq_q := True\<rparr>)"
      and h3: "queue_head q3 = queue_head q1 @ rev ps"
      by blast
    have "filter (\<lambda>x. x \<notin> set (rev ps)) (rev ps) = []"
      by (simp add: filter_empty_conv)
    with inv3 have inv3: "tagged q3 d []" by simp
    from taggedD [OF inv3] obtain b3 where b3: "queue_tags q3 = Some b3"
      by blast
    have i: "blk_queue_invalidate_tags q1 = Inr q3"
      using b1 bl1 e by (simp add: blk_queue_invalidate_tags_def)
    have once: "count_list (queue_head q3) p = 1" if "p \<in> set ps" for p
    proof -
      from that off have "count_list (queue_head q1) p = 0"
        by (simp add: count_list_0_iff)
      moreover from that ps(1) have "count_list (rev ps) p = 1"
        by (simp add: count_list_distinct)
      ultimately show ?thesis
        by (simp add: h3)
    qed
    have "\<forall>p\<in>set ps. \<exists>r. rqs q3 p = Some r \<and> tag r = - 1 \<and>
                    flags r AND REQ_QUEUED = 0 \<and> flags r AND REQ_STARTED = 0"
      using upd3 by (fastforce simp: req_queued_clear)
    with i b3 restored [OF inv3 b3] once show ?thesis
      by blast
  qed
  from mde run dist tags1 off ended invalidated show ?thesis
    by blast
qed

theorem tag_round_trip_witness:
  "blk_queue_init_tags
     (example_pending [(1, example_rq 0 8 1), (2, example_rq 8 8 1), (3, example_rq 16 8 1)])
     4 True True True
    = Inr ((example_pending [(1, example_rq 0 8 1), (2, example_rq 8 8 1), (3, example_rq 16 8 1)])
            \<lparr>queue_tags := Some (example_tags [None, None, None, None] (- 16) [])\<rparr>) \<and>
   (\<exists>q1. start_tags
           ((example_pending [(1, example_rq 0 8 1), (2, example_rq 8 8 1), (3, example_rq 16 8 1)])
              \<lparr>queue_tags := Some (example_tags [None, None, None, None] (- 16) [])\<rparr>)
           [1, 2, 3] = Inr ([0, 0, 0], q1) \<and>
         distinct [tag (the (rqs q1 1)), tag (the (rqs q1 2)), tag (the (rqs q1 3))] \<and>
         (\<exists>q2 b2. end_tags q1 [1, 2, 3] = Inr q2 \<and> queue_tags q2 = Some b2 \<and>
            tag_map b2 = [- 16] \<and> busy b2 = 0) \<and>
         (\<exists>q3 b3. blk_queue_invalidate_tags q1 = Inr q3 \<and> queue_tags q3 = Some b3 \<and>
            tag_map b3 = [- 16] \<and> busy b3 = 0 \<and>
            count_list (queue_head q3) 1 = 1 \<and> count_list (queue_head q3) 2 = 1 \<and>
            count_list (queue_head q3) 3 = 1))"
proof -
  let ?Q = "example_pending [(1, example_rq 0 8 1), (2, example_rq 8 8 1), (3, example_rq 16 8 1)]"
  let ?T = "example_tags [None, None, None, None] (- 16) []"
  let ?S = "?Q\<lparr>queue_tags := Some ?T\<rparr>"
  have d0: "0 \<le> (4::int)" "(4::int) < 2 ^ 31" "0 \<le> nr_requests ?Q" "nr_requests ?Q < 2 ^ 31"
    by (simp_all add: example_pending_def example_queue_def)
  have rep: "replicate 4 (None :: nat option) = [None, None, None, None]"
    by (simp add: numeral_eq_Suc)
  have init: "blk_queue_init_tags ?Q 4 True True True = Inr ?S" "queue_tags ?S = Some ?T"
    by (simp_all add: blk_queue_init_tags_def init_tag_map_def example_tags_def
          example_pending_def example_queue_def bitmap_set_bit_def upt_rec_numeral rep
          ulong_def)
  have ps: "distinct [1, 2, 3 :: nat]"
    "int (length [1, 2, 3 :: nat]) \<le> min 4 (2 * nr_requests ?Q)"
    "\<forall>p\<in>set [1, 2, 3]. \<exists>r. rqs ?Q p = Some r \<and> flags r AND REQ_QUEUED = 0"
    by (simp_all add: example_tags_def example_pending_def example_queue_def example_rq_def
          REQ_CMD_def REQ_QUEUED_def REQ_bits)
  have m: "tag_map ?T = [- 16]"
    by (simp add: example_tags_def)
  from tag_round_trip [OF d0 init ps] obtain q1 where
    A: "start_tags ?S [1, 2, 3] = Inr (replicate (length [1, 2, 3 :: nat]) 0, q1)"
    and B: "distinct (map (\<lambda>p. tag (the (rqs q1 p))) [1, 2, 3])"
    and C: "\<exists>q2 b2. end_tags q1 [1, 2, 3] = Inr q2 \<and> queue_tags q2 = Some b2 \<and>
              tag_map b2 = tag_map ?T \<and> busy b2 = 0 \<and> busy_list b2 = [] \<and>
              (\<forall>p\<in>set [1, 2, 3]. \<exists>r. rqs q2 p = Some r \<and> tag r = - 1 \<and>
                 flags r AND REQ_QUEUED = 0)"
    and D: "\<exists>q3 b3. blk_queue_invalidate_tags q1 = Inr q3 \<and> queue_tags q3 = Some b3 \<and>
              tag_map b3 = tag_map ?T \<and> busy b3 = 0 \<and> busy_list b3 = [] \<and>
              (\<forall>p\<in>set [1, 2, 3]. count_list (queue_head q3) p = 1 \<and>
                 (\<exists>r. rqs q3 p = Some r \<and> tag r = - 1 \<and>
                    flags r AND REQ_QUEUED = 0 \<and> flags r AND REQ_STARTED = 0))"
    by blast
  have A': "start_tags ?S [1, 2, 3] = Inr ([0, 0, 0], q1)"
    using A by (simp del: start_tags.simps)
  have B': "distinct [tag (the (rqs q1 1)), tag (the (rqs q1 2)), tag (the (rqs q1 3))]"
    using B by simp
  from C m obtain q2 b2 where "end_tags q1 [1, 2, 3] = Inr q2" "queue_tags q2 = Some b2"
    "tag_map b2 = [- 16]" "busy b2 = 0"
    by auto
  then have C': "\<exists>q2 b2. end_tags q1 [1, 2, 3] = Inr q2 \<and> queue_tags q2 = Some b2 \<and>
            tag_map b2 = [- 16] \<and> busy b2 = 0"
    by blast
  from D m obtain q3 b3 where "blk_queue_invalidate_tags q1 = Inr q3" "queue_tags q3 = Some b3"
    "tag_map b3 = [- 16]" "busy b3 = 0"
    "\<forall>p\<in>set [1, 2, 3]. count_list (queue_head q3) p = 1"
    by auto
  then have D': "\<exists>q3 b3. blk_queue_invalidate_tags q1 = Inr q3 \<and> queue_tags q3 = Some b3 \<and>
            tag_map b3 = [- 16] \<and> busy b3 = 0 \<and>
            count_list (queue_head q3) 1 = 1 \<and> count_list (queue_head q3) 2 = 1 \<and>
            count_list (queue_head q3) 3 = 1"
    by auto
  from init(1) A' B' C' D' show ?thesis
    by blast
qed

section \<open>The Dirty bit\<close>

text \<open>
  \<open>__buffer_error\<close> only reports: it leaves the buffers, the pages and the LRU as they are.
\<close>

lemma buffer_error_frame [simp]:
  "bufs (buffer_error c) = bufs c"
  "page_flags (buffer_error c) = page_flags c"
  "page_mapping (buffer_error c) = page_mapping c"
  "page_buffers (buffer_error c) = page_buffers c"
  "bhs (buffer_error c) = bhs c"
  by (simp_all add: buffer_error_def)

lemma dirty_ring_bufs:
  "dirty_ring ring c = Inr c' \<Longrightarrow>
     bufs c' = (\<lambda>h. map_option
        (\<lambda>b. if h \<in> set ring \<and> BH_Uptodate \<in> b_state b
             then b\<lparr>b_state := insert BH_Dirty (b_state b)\<rparr> else b) (bufs c h)) \<and>
     page_flags c' = page_flags c"
proof (induction ring arbitrary: c)
  case Nil
  then show ?case by (auto simp: map_option.identity option.map_ident)
next
  case (Cons h hs)
  from Cons.prems obtain b where b: "bufs c h = Some b"
    by (auto split: option.splits)
  let ?c1 = "(if BH_Uptodate \<in> b_state b
             then c\<lparr>bufs := (bufs c)(h \<mapsto> b\<lparr>b_state := insert BH_Dirty (b_state b)\<rparr>)\<rparr>
             else buffer_error c)"
  from Cons.prems b have "dirty_ring hs ?c1 = Inr c'"
    by simp
  from Cons.IH [OF this] show ?case
    using b by (auto simp: fun_eq_iff map_option_case split: option.splits)
qed


lemma set_page_dirty_buffers_bufs:
  assumes "set_page_dirty_buffers c pg = Inr (ret, c')"
  shows "\<exists>ring. bufs c' = (\<lambda>h. map_option
        (\<lambda>b. if h \<in> set ring \<and> BH_Uptodate \<in> b_state b
             then b\<lparr>b_state := insert BH_Dirty (b_state b)\<rparr> else b) (bufs c h)) \<and>
        (page_mapping c pg \<noteq> None \<and> page_buffers c pg \<noteq> None \<longrightarrow>
           page_buffers c pg = Some ring) \<and>
        (page_mapping c pg = None \<or> page_buffers c pg = None \<longrightarrow> ring = [])"
proof (cases "page_mapping c pg")
  case None
  with assms have "bufs c' = bufs c"
    by (auto simp: set_page_dirty_buffers_def)
  with None show ?thesis
    by (intro exI [of _ "[]"]) (simp add: option.map_ident)
next
  case (Some m)
  show ?thesis
  proof (cases "page_buffers c pg")
    case None
    with Some assms have "bufs c' = bufs c"
      by (auto simp: set_page_dirty_buffers_def split: if_splits)
    with None show ?thesis
      by (intro exI [of _ "[]"]) (simp add: option.map_ident)
  next
    case (Some ring) note r = this
    with \<open>page_mapping c pg = Some m\<close> assms obtain c1 where
      d: "dirty_ring ring c = Inr c1" and b: "bufs c' = bufs c1"
      by (cases ring) (auto simp: set_page_dirty_buffers_def split: sum.splits if_splits)
    from dirty_ring_bufs [OF d] b r \<open>page_mapping c pg = Some m\<close> show ?thesis
      by (intro exI [of _ ring]) simp
  qed
qed

lemma dirty_ring_enough:
  "dirty_ring ring c = Inr c' \<Longrightarrow>
     enough c' = (if enough c > 10 then enough c
                  else min 11 (enough c + int (not_uptodate c ring)))"
proof (induction ring arbitrary: c)
  case Nil
  then show ?case by (auto simp: not_uptodate_def)
next
  case (Cons h hs)
  from Cons.prems obtain b where b: "bufs c h = Some b"
    by (auto split: option.splits)
  show ?case
  proof (cases "BH_Uptodate \<in> b_state b")
    case True
    let ?c1 = "c\<lparr>bufs := (bufs c)(h \<mapsto> b\<lparr>b_state := insert BH_Dirty (b_state b)\<rparr>)\<rparr>"
    from Cons.prems b True have "dirty_ring hs ?c1 = Inr c'"
      by simp
    from Cons.IH [OF this] have "enough c' = (if enough c > 10 then enough c
                  else min 11 (enough c + int (not_uptodate ?c1 hs)))"
      by simp
    moreover from b True have "not_uptodate ?c1 hs = not_uptodate c hs"
      unfolding not_uptodate_def by (intro arg_cong [where f = length] filter_cong) auto
    moreover from b True have "not_uptodate c (h # hs) = not_uptodate c hs"
      by (simp add: not_uptodate_def)
    ultimately show ?thesis
      by simp
  next
    case False
    from Cons.prems b False have "dirty_ring hs (buffer_error c) = Inr c'"
      by simp
    from Cons.IH [OF this] have "enough c' = (if enough (buffer_error c) > 10
                  then enough (buffer_error c)
                  else min 11 (enough (buffer_error c) + int (not_uptodate (buffer_error c) hs)))"
      by simp
    moreover have "not_uptodate (buffer_error c) hs = not_uptodate c hs"
      by (simp add: not_uptodate_def)
    moreover from b False have "not_uptodate c (h # hs) = Suc (not_uptodate c hs)"
      by (simp add: not_uptodate_def)
    moreover have "enough (buffer_error c)
        = (if 10 < enough c then enough c else enough c + 1)"
      by (simp add: buffer_error_def)
    ultimately show ?thesis
      by (simp add: ac_simps)
  qed
qed

lemma set_page_dirty_buffers_enough:
  assumes "set_page_dirty_buffers c pg = Inr (ret, c')"
  shows "enough c' = (if enough c > 10 then enough c
                      else min 11 (enough c + int (not_uptodate c (page_ring c pg))))"
proof (cases "page_mapping c pg")
  case None
  with assms show ?thesis
    by (auto simp: set_page_dirty_buffers_def page_ring_def not_uptodate_def)
next
  case (Some m)
  show ?thesis
  proof (cases "page_buffers c pg")
    case None
    with Some assms show ?thesis
      by (auto simp: set_page_dirty_buffers_def page_ring_def not_uptodate_def
               split: if_splits)
  next
    case (Some ring) note r = this
    with \<open>page_mapping c pg = Some m\<close> assms obtain c1 where
      d: "dirty_ring ring c = Inr c1" and e: "enough c' = enough c1"
      by (cases ring) (auto simp: set_page_dirty_buffers_def split: sum.splits if_splits)
    from dirty_ring_enough [OF d] e r \<open>page_mapping c pg = Some m\<close> show ?thesis
      by (simp add: page_ring_def)
  qed
qed

text \<open>
  Claim C7, as stated, at one input. A mapped buffer that is neither uptodate nor dirty is
  passed to \<open>mark_buffer_dirty\<close>: the call reports through \<open>__buffer_error\<close> (the
  counter of reports goes from 0 to 1), carries on, and sets the Dirty bit of the buffer, whose
  Uptodate bit is still clear.
\<close>

theorem dirty_without_uptodate_counterexample:
  "BH_Uptodate \<notin> b_state (example_bh {BH_Mapped} 0) \<and>
   (case mark_buffer_dirty (example_cache [(1, example_bh {BH_Mapped} 0)] []) 1 of
      Inl f \<Rightarrow> False
    | Inr c' \<Rightarrow> bufs c' 1 = Some (example_bh {BH_Dirty, BH_Mapped} 0) \<and> enough c' = 1)"
  by (simp add: mark_buffer_dirty_def example_cache_def example_bh_def buffer_error_def
        set_page_dirty_nobuffers_def Let_def)

text \<open>
  Claim C7, amended. Through the page path (\<open>__set_page_dirty_buffers\<close>) a buffer
  becomes dirty only if it was uptodate, every uptodate buffer of the page becomes dirty, and
  no other bit of any buffer changes. Each buffer of the page that is not uptodate is reported
  through \<open>__buffer_error\<close> instead: the counter of reports grows by the number of these
  buffers, as far as its limit of 11. \<open>mark_buffer_dirty\<close> on a buffer that is already
  dirty changes no buffer and no page flag, so a Locked bit stays; on a clean buffer it sets the
  Dirty bit and nothing else in the buffer, marks the page dirty, and reports an error, without
  stopping, when the buffer is not uptodate.
\<close>

theorem dirty_bit_rules:
  assumes b: "bufs c h = Some b"
  shows "(set_page_dirty_buffers c pg = Inr (ret, c') \<longrightarrow>
            (\<exists>b'. bufs c' h = Some b' \<and>
               (BH_Dirty \<in> b_state b' \<longrightarrow> BH_Dirty \<in> b_state b \<or> BH_Uptodate \<in> b_state b) \<and>
               b_state b' - {BH_Dirty} = b_state b - {BH_Dirty} \<and>
               b_state b \<subseteq> b_state b' \<and>
               (BH_Uptodate \<in> b_state b \<and> page_mapping c pg \<noteq> None \<and>
                (\<exists>ring. page_buffers c pg = Some ring \<and> h \<in> set ring) \<longrightarrow>
                  BH_Dirty \<in> b_state b')) \<and>
            enough c' = (if enough c > 10 then enough c
                         else min 11 (enough c + int (not_uptodate c (page_ring c pg))))) \<and>
         (BH_Dirty \<in> b_state b \<longrightarrow>
            (\<exists>c1. mark_buffer_dirty c h = Inr c1 \<and> bufs c1 = bufs c \<and>
               page_flags c1 = page_flags c)) \<and>
         (BH_Dirty \<notin> b_state b \<longrightarrow>
            (\<exists>c1. mark_buffer_dirty c h = Inr c1 \<and>
               bufs c1 = (bufs c)(h \<mapsto> b\<lparr>b_state := insert BH_Dirty (b_state b)\<rparr>) \<and>
               PG_dirty \<in> page_flags c1 (b_page b) \<and>
               enough c1 = (if BH_Uptodate \<in> b_state b \<or> enough c > 10 then enough c
                            else enough c + 1)))"
proof -
  have page: "(\<exists>b'. bufs c' h = Some b' \<and>
               (BH_Dirty \<in> b_state b' \<longrightarrow> BH_Dirty \<in> b_state b \<or> BH_Uptodate \<in> b_state b) \<and>
               b_state b' - {BH_Dirty} = b_state b - {BH_Dirty} \<and>
               b_state b \<subseteq> b_state b' \<and>
               (BH_Uptodate \<in> b_state b \<and> page_mapping c pg \<noteq> None \<and>
                (\<exists>ring. page_buffers c pg = Some ring \<and> h \<in> set ring) \<longrightarrow>
                  BH_Dirty \<in> b_state b')) \<and>
            enough c' = (if enough c > 10 then enough c
                         else min 11 (enough c + int (not_uptodate c (page_ring c pg))))"
    if "set_page_dirty_buffers c pg = Inr (ret, c')"
  proof -
    note cnt = set_page_dirty_buffers_enough [OF that]
    from set_page_dirty_buffers_bufs [OF that] obtain ring where
      r: "bufs c' = (\<lambda>h. map_option
        (\<lambda>b. if h \<in> set ring \<and> BH_Uptodate \<in> b_state b
             then b\<lparr>b_state := insert BH_Dirty (b_state b)\<rparr> else b) (bufs c h))"
      and p: "page_mapping c pg \<noteq> None \<and> page_buffers c pg \<noteq> None \<longrightarrow>
           page_buffers c pg = Some ring"
      by blast
    let ?b' = "if h \<in> set ring \<and> BH_Uptodate \<in> b_state b
             then b\<lparr>b_state := insert BH_Dirty (b_state b)\<rparr> else b"
    from r b have "bufs c' h = Some ?b'"
      by simp
    with p have "\<exists>b'. bufs c' h = Some b' \<and>
               (BH_Dirty \<in> b_state b' \<longrightarrow> BH_Dirty \<in> b_state b \<or> BH_Uptodate \<in> b_state b) \<and>
               b_state b' - {BH_Dirty} = b_state b - {BH_Dirty} \<and>
               b_state b \<subseteq> b_state b' \<and>
               (BH_Uptodate \<in> b_state b \<and> page_mapping c pg \<noteq> None \<and>
                (\<exists>ring. page_buffers c pg = Some ring \<and> h \<in> set ring) \<longrightarrow>
                  BH_Dirty \<in> b_state b')"
      by (intro exI [of _ ?b']) auto
    with cnt show ?thesis
      by blast
  qed
  have dirty: "\<exists>c1. mark_buffer_dirty c h = Inr c1 \<and> bufs c1 = bufs c \<and>
               page_flags c1 = page_flags c" if "BH_Dirty \<in> b_state b"
    using that b by (simp add: mark_buffer_dirty_def Let_def)
  have clean: "\<exists>c1. mark_buffer_dirty c h = Inr c1 \<and>
               bufs c1 = (bufs c)(h \<mapsto> b\<lparr>b_state := insert BH_Dirty (b_state b)\<rparr>) \<and>
               PG_dirty \<in> page_flags c1 (b_page b) \<and>
               enough c1 = (if BH_Uptodate \<in> b_state b \<or> enough c > 10 then enough c
                            else enough c + 1)" if "BH_Dirty \<notin> b_state b"
    using that b
    by (simp add: mark_buffer_dirty_def Let_def set_page_dirty_nobuffers_def buffer_error_def)
  from page dirty clean show ?thesis
    by blast
qed

theorem dirty_bit_rules_witness:
  "(case set_page_dirty_buffers
           (example_cache [(1, example_bh {BH_Uptodate, BH_Mapped} 0),
                           (2, example_bh {BH_Mapped} 1)] []) 0 of
      Inl f \<Rightarrow> False
    | Inr (ret, c') \<Rightarrow>
        BH_Dirty \<in> b_state (the (bufs c' 1)) \<and> BH_Dirty \<notin> b_state (the (bufs c' 2)) \<and>
        enough c' = 1) \<and>
   (case mark_buffer_dirty
           (example_cache [(3, example_bh {BH_Uptodate, BH_Dirty, BH_Lock, BH_Mapped} 0)] []) 3 of
      Inl f \<Rightarrow> False
    | Inr c1 \<Rightarrow>
        bufs c1 = bufs (example_cache
                          [(3, example_bh {BH_Uptodate, BH_Dirty, BH_Lock, BH_Mapped} 0)] [])) \<and>
   (case mark_buffer_dirty
           (example_cache [(4, example_bh {BH_Uptodate, BH_Lock, BH_Mapped} 0)] []) 4 of
      Inl f \<Rightarrow> False
    | Inr c1 \<Rightarrow>
        BH_Dirty \<in> b_state (the (bufs c1 4)) \<and> BH_Lock \<in> b_state (the (bufs c1 4)))"
proof -
  let ?b1 = "example_bh {BH_Uptodate, BH_Mapped} 0" and ?b2 = "example_bh {BH_Mapped} 1"
  let ?C = "example_cache [(1, ?b1), (2, ?b2)] []"
  let ?b3 = "example_bh {BH_Uptodate, BH_Dirty, BH_Lock, BH_Mapped} 0"
  let ?D = "example_cache [(3, ?b3)] []"
  let ?b4 = "example_bh {BH_Uptodate, BH_Lock, BH_Mapped} 0"
  let ?E = "example_cache [(4, ?b4)] []"
  have "\<exists>ret c'. set_page_dirty_buffers ?C 0 = Inr (ret, c')"
    by (simp add: set_page_dirty_buffers_def example_cache_def example_bh_def buffer_error_def)
  then obtain ret c' where p: "set_page_dirty_buffers ?C 0 = Inr (ret, c')"
    by blast
  have b1: "bufs ?C 1 = Some ?b1" and b2: "bufs ?C 2 = Some ?b2"
    and b3: "bufs ?D 3 = Some ?b3" and b4: "bufs ?E 4 = Some ?b4"
    by (simp_all add: example_cache_def)
  have in1: "BH_Uptodate \<in> b_state ?b1 \<and> page_mapping ?C 0 \<noteq> None \<and>
             (\<exists>ring. page_buffers ?C 0 = Some ring \<and> 1 \<in> set ring)"
    by (simp add: example_cache_def example_bh_def)
  have n2: "\<not> (BH_Dirty \<in> b_state ?b2 \<or> BH_Uptodate \<in> b_state ?b2)"
    by (simp add: example_bh_def)
  have d3: "BH_Dirty \<in> b_state ?b3" and c4: "BH_Dirty \<notin> b_state ?b4" "BH_Lock \<in> b_state ?b4"
    by (simp_all add: example_bh_def)
  from dirty_bit_rules [OF b1, of 0 ret c'] p in1
  have r1: "BH_Dirty \<in> b_state (the (bufs c' 1))"
    by auto
  from dirty_bit_rules [OF b2, of 0 ret c'] p n2
  have r2: "BH_Dirty \<notin> b_state (the (bufs c' 2))"
    by auto
  have one: "enough ?C = 0" "not_uptodate ?C (page_ring ?C 0) = 1"
    by (simp_all add: not_uptodate_def page_ring_def example_cache_def example_bh_def)
  from dirty_bit_rules [OF b2, of 0 ret c'] p
  have "enough c' = (if enough ?C > 10 then enough ?C
                     else min 11 (enough ?C + int (not_uptodate ?C (page_ring ?C 0))))"
    by blast
  with one have r0: "enough c' = 1"
    by simp
  from dirty_bit_rules [OF b3, of 0 ret c'] d3 obtain c3 where
    r3: "mark_buffer_dirty ?D 3 = Inr c3" "bufs c3 = bufs ?D"
    by blast
  from dirty_bit_rules [OF b4, of 0 ret c'] c4 obtain c5 where
    r4: "mark_buffer_dirty ?E 4 = Inr c5"
        "bufs c5 = (bufs ?E)(4 \<mapsto> ?b4\<lparr>b_state := insert BH_Dirty (b_state ?b4)\<rparr>)"
    by blast
  from r4(2) c4(2) have r5: "BH_Dirty \<in> b_state (the (bufs c5 4)) \<and> BH_Lock \<in> b_state (the (bufs c5 4))"
    by simp
  from p r0 r1 r2 r3 r4(1) r5 show ?thesis
    by simp
qed

section \<open>The per-CPU LRU of buffer heads\<close>


















section \<open>The fsync drain\<close>

text \<open>
  What each step does to the buffer it is called for; no step touches another buffer.
\<close>

lemma get_bh_Some:
  "bufs c h = Some b \<Longrightarrow>
     get_bh c h = Inr (c\<lparr>bufs := (bufs c)(h \<mapsto> b\<lparr>b_count := b_count b + 1\<rparr>)\<rparr>)"
  by (simp add: get_bh_def)

lemma put_bh_Some:
  "bufs c h = Some b \<Longrightarrow>
     put_bh c h = Inr (c\<lparr>bufs := (bufs c)(h \<mapsto> b\<lparr>b_count := b_count b - 1\<rparr>)\<rparr>)"
  by (simp add: put_bh_def)

lemma brelse_Some:
  "bufs c h = Some b \<Longrightarrow>
     \<exists>c' n. brelse c h = Inr c' \<and> bufs c' = (bufs c)(h \<mapsto> b\<lparr>b_count := n\<rparr>)"
proof (cases "b_count b = 0")
  case True
  assume "bufs c h = Some b"
  with True have "brelse c h = Inr (buffer_error c) \<and>
      bufs (buffer_error c) = (bufs c)(h \<mapsto> b\<lparr>b_count := 0\<rparr>)"
    by (auto simp: brelse_def)
  then show ?thesis
    by blast
next
  case False
  assume "bufs c h = Some b"
  with False have "brelse c h = Inr (c\<lparr>bufs := (bufs c)(h \<mapsto> b\<lparr>b_count := b_count b - 1\<rparr>)\<rparr>)"
    by (simp add: brelse_def put_bh_def)
  then show ?thesis
    by auto
qed

lemma unlock_buffer_Some:
  "bufs c h = Some b \<Longrightarrow>
     \<exists>c'. unlock_buffer c h = Inr c' \<and>
       bufs c' = (bufs c)(h \<mapsto> b\<lparr>b_state := b_state b - {BH_Lock}\<rparr>)"
  by (simp add: unlock_buffer_def Let_def)

lemma end_buffer_sync_Some:
  assumes "bufs c h = Some b"
  shows "\<exists>c'. end_buffer_read_sync c h u = Inr c' \<and>
           bufs c' = (bufs c)(h \<mapsto> b\<lparr>b_state :=
             (if u then insert BH_Uptodate (b_state b) else b_state b - {BH_Uptodate})
               - {BH_Lock}, b_count := b_count b - 1\<rparr>)"
    and "\<exists>c'. end_buffer_write_sync c h u = Inr c' \<and>
           bufs c' = (bufs c)(h \<mapsto> b\<lparr>b_state :=
             (if u then insert BH_Uptodate (b_state b)
              else insert BH_Write_EIO (b_state b) - {BH_Uptodate})
               - {BH_Lock}, b_count := b_count b - 1\<rparr>)"
proof -
  let ?r = "b\<lparr>b_state := (if u then insert BH_Uptodate (b_state b)
                          else b_state b - {BH_Uptodate})\<rparr>"
  let ?w = "b\<lparr>b_state := (if u then insert BH_Uptodate (b_state b)
                          else insert BH_Write_EIO (b_state b) - {BH_Uptodate})\<rparr>"
  have r: "bufs (c\<lparr>bufs := (bufs c)(h \<mapsto> ?r)\<rparr>) h = Some ?r"
    and w: "bufs (c\<lparr>bufs := (bufs c)(h \<mapsto> ?w)\<rparr>) h = Some ?w"
    by simp_all
  from unlock_buffer_Some [OF r] obtain c1 where
    c1: "unlock_buffer (c\<lparr>bufs := (bufs c)(h \<mapsto> ?r)\<rparr>) h = Inr c1"
        "bufs c1 = (bufs c)(h \<mapsto> ?r\<lparr>b_state := b_state ?r - {BH_Lock}\<rparr>)"
    by auto
  from c1(2) have "bufs c1 h = Some (?r\<lparr>b_state := b_state ?r - {BH_Lock}\<rparr>)"
    by simp
  from put_bh_Some [OF this] c1 assms
  show "\<exists>c'. end_buffer_read_sync c h u = Inr c' \<and>
           bufs c' = (bufs c)(h \<mapsto> b\<lparr>b_state :=
             (if u then insert BH_Uptodate (b_state b) else b_state b - {BH_Uptodate})
               - {BH_Lock}, b_count := b_count b - 1\<rparr>)"
    by (simp add: end_buffer_read_sync_def)
  from unlock_buffer_Some [OF w] obtain c2 where
    c2: "unlock_buffer (c\<lparr>bufs := (bufs c)(h \<mapsto> ?w)\<rparr>) h = Inr c2"
        "bufs c2 = (bufs c)(h \<mapsto> ?w\<lparr>b_state := b_state ?w - {BH_Lock}\<rparr>)"
    by auto
  from c2(2) have "bufs c2 h = Some (?w\<lparr>b_state := b_state ?w - {BH_Lock}\<rparr>)"
    by simp
  from put_bh_Some [OF this] c2 assms
  show "\<exists>c'. end_buffer_write_sync c h u = Inr c' \<and>
           bufs c' = (bufs c)(h \<mapsto> b\<lparr>b_state :=
             (if u then insert BH_Uptodate (b_state b)
              else insert BH_Write_EIO (b_state b) - {BH_Uptodate})
               - {BH_Lock}, b_count := b_count b - 1\<rparr>)"
    by (simp add: end_buffer_write_sync_def)
qed

lemma end_bio_bh_io_sync_Some:
  assumes b: "bufs c h = Some b" and hook: "b_end_io b \<noteq> None"
  shows "\<exists>c' b'. end_bio_bh_io_sync c h u = Inr c' \<and> bufs c' = (bufs c)(h \<mapsto> b') \<and>
           BH_Lock \<notin> b_state b' \<and> (BH_Uptodate \<in> b_state b') = u \<and>
           (BH_Dirty \<in> b_state b') = (BH_Dirty \<in> b_state b) \<and>
           (BH_Mapped \<in> b_state b') = (BH_Mapped \<in> b_state b) \<and> b_io b' = None"
proof -
  from hook obtain k where k: "b_end_io b = Some k"
    by auto
  have "\<exists>c1 b1. (case k of END_BUFFER_READ_SYNC \<Rightarrow> end_buffer_read_sync c h u
                  | END_BUFFER_WRITE_SYNC \<Rightarrow> end_buffer_write_sync c h u) = Inr c1 \<and>
          bufs c1 = (bufs c)(h \<mapsto> b1) \<and>
           BH_Lock \<notin> b_state b1 \<and> (BH_Uptodate \<in> b_state b1) = u \<and>
           (BH_Dirty \<in> b_state b1) = (BH_Dirty \<in> b_state b) \<and>
           (BH_Mapped \<in> b_state b1) = (BH_Mapped \<in> b_state b)"
  proof (cases k)
    case END_BUFFER_READ_SYNC
    from end_buffer_sync_Some(1) [OF b, of u] obtain c1 where
      "end_buffer_read_sync c h u = Inr c1"
      "bufs c1 = (bufs c)(h \<mapsto> b\<lparr>b_state :=
             (if u then insert BH_Uptodate (b_state b) else b_state b - {BH_Uptodate})
               - {BH_Lock}, b_count := b_count b - 1\<rparr>)"
      by blast
    with END_BUFFER_READ_SYNC show ?thesis
      by (intro exI [of _ c1] exI [of _ "b\<lparr>b_state :=
             (if u then insert BH_Uptodate (b_state b) else b_state b - {BH_Uptodate})
               - {BH_Lock}, b_count := b_count b - 1\<rparr>"]) simp
  next
    case END_BUFFER_WRITE_SYNC
    from end_buffer_sync_Some(2) [OF b, of u] obtain c1 where
      "end_buffer_write_sync c h u = Inr c1"
      "bufs c1 = (bufs c)(h \<mapsto> b\<lparr>b_state :=
             (if u then insert BH_Uptodate (b_state b)
              else insert BH_Write_EIO (b_state b) - {BH_Uptodate})
               - {BH_Lock}, b_count := b_count b - 1\<rparr>)"
      by blast
    with END_BUFFER_WRITE_SYNC show ?thesis
      by (intro exI [of _ c1] exI [of _ "b\<lparr>b_state :=
             (if u then insert BH_Uptodate (b_state b)
              else insert BH_Write_EIO (b_state b) - {BH_Uptodate})
               - {BH_Lock}, b_count := b_count b - 1\<rparr>"]) simp
  qed
  then obtain c1 b1 where h1: "(case k of END_BUFFER_READ_SYNC \<Rightarrow> end_buffer_read_sync c h u
                  | END_BUFFER_WRITE_SYNC \<Rightarrow> end_buffer_write_sync c h u) = Inr c1"
    and b1: "bufs c1 = (bufs c)(h \<mapsto> b1)"
    and p1: "BH_Lock \<notin> b_state b1" "(BH_Uptodate \<in> b_state b1) = u"
            "(BH_Dirty \<in> b_state b1) = (BH_Dirty \<in> b_state b)"
            "(BH_Mapped \<in> b_state b1) = (BH_Mapped \<in> b_state b)"
    by blast
  from b k h1 b1 have "end_bio_bh_io_sync c h u
      = Inr (c1\<lparr>bufs := (bufs c1)(h \<mapsto> b1\<lparr>b_io := None\<rparr>)\<rparr>)"
    by (simp add: end_bio_bh_io_sync_def)
  with b1 p1 show ?thesis
    by (intro exI [of _ "c1\<lparr>bufs := (bufs c1)(h \<mapsto> b1\<lparr>b_io := None\<rparr>)\<rparr>"]
              exI [of _ "b1\<lparr>b_io := None\<rparr>"]) simp
qed


lemma buffer_error_bufs:
  "bufs (buffer_error c) = bufs c"
  by (simp add: buffer_error_def)

lemma wait_on_buffer_Returns:
  assumes b: "bufs c h = Some b"
    and io: "BH_Lock \<in> b_state b \<longrightarrow> b_io b = Some ok \<and> b_end_io b \<noteq> None"
  shows "\<exists>c' b'. wait_on_buffer c h = Returns c' \<and> bufs c' = (bufs c)(h \<mapsto> b') \<and>
           BH_Lock \<notin> b_state b' \<and>
           (BH_Dirty \<in> b_state b') = (BH_Dirty \<in> b_state b) \<and>
           (BH_Mapped \<in> b_state b') = (BH_Mapped \<in> b_state b) \<and>
           (BH_Lock \<in> b_state b \<longrightarrow> (BH_Uptodate \<in> b_state b') = ok) \<and>
           (BH_Lock \<notin> b_state b \<longrightarrow> b' = b)"
proof (cases "BH_Lock \<in> b_state b")
  case False
  with b have "wait_on_buffer c h = Returns c" "bufs c = (bufs c)(h \<mapsto> b)"
    by (auto simp: wait_on_buffer_def)
  with False show ?thesis
    by blast
next
  case True
  let ?c1 = "if b_count b = 0 \<and> PG_locked \<notin> page_flags c (b_page b)
             then buffer_error c else c"
  from b have b1: "bufs ?c1 h = Some b" and same: "bufs ?c1 = bufs c"
    by (simp_all add: buffer_error_bufs)
  from True io have hook: "b_end_io b \<noteq> None" and ok: "b_io b = Some ok"
    by simp_all
  from end_bio_bh_io_sync_Some [OF b1 hook, of ok] obtain c' b' where
    e: "end_bio_bh_io_sync ?c1 h ok = Inr c'" and b': "bufs c' = (bufs ?c1)(h \<mapsto> b')"
    and p: "BH_Lock \<notin> b_state b'" "(BH_Uptodate \<in> b_state b') = ok"
           "(BH_Dirty \<in> b_state b') = (BH_Dirty \<in> b_state b)"
           "(BH_Mapped \<in> b_state b') = (BH_Mapped \<in> b_state b)"
    by blast
  from b' have "bufs c' h = Some b'"
    by simp
  with b True ok e p(1) have "wait_on_buffer c h = Returns c'"
    by (simp add: wait_on_buffer_def Let_def)
  with b' same p True show ?thesis
    by auto
qed

lemma submit_bio_awaited:
  assumes b: "bufs c h = Some b" and hook: "b_end_io b \<noteq> None"
    and st: "BH_Lock \<in> b_state b" "BH_Dirty \<notin> b_state b"
  shows "\<exists>c' b'. submit_bio dsk c rw h = Inr c' \<and> bufs c' = (bufs c)(h \<mapsto> b') \<and>
           BH_Dirty \<notin> b_state b' \<and>
           (if BH_Lock \<in> b_state b' then b_io b' = Some (io_ok dsk rw h) \<and> b_end_io b' \<noteq> None
            else (BH_Uptodate \<in> b_state b') = io_ok dsk rw h)"
proof (cases "io_now dsk h")
  case True
  from end_bio_bh_io_sync_Some [OF b hook, of "io_ok dsk rw h"] True st show ?thesis
    by (auto simp: submit_bio_def)
next
  case False
  with b have "submit_bio dsk c rw h
      = Inr (c\<lparr>bufs := (bufs c)(h \<mapsto> b\<lparr>b_io := Some (io_ok dsk rw h)\<rparr>)\<rparr>)"
    by (simp add: submit_bio_def)
  with hook st show ?thesis
    by (intro exI [of _ "c\<lparr>bufs := (bufs c)(h \<mapsto> b\<lparr>b_io := Some (io_ok dsk rw h)\<rparr>)\<rparr>"]
              exI [of _ "b\<lparr>b_io := Some (io_ok dsk rw h)\<rparr>"]) simp
qed

lemma submit_bh_awaited:
  assumes b: "bufs c h = Some b" and hook: "b_end_io b \<noteq> None"
    and st: "BH_Lock \<in> b_state b" "BH_Dirty \<notin> b_state b" "BH_Mapped \<in> b_state b"
  shows "\<exists>c' b'. submit_bh dsk c WRITE h = Inr c' \<and> bufs c' = (bufs c)(h \<mapsto> b') \<and>
           BH_Dirty \<notin> b_state b' \<and>
           (if BH_Lock \<in> b_state b'
            then b_io b' = Some (io_ok dsk WRITE h) \<and> b_end_io b' \<noteq> None
            else (BH_Uptodate \<in> b_state b') = io_ok dsk WRITE h)"
proof -
  let ?c2 = "if BH_Uptodate \<notin> b_state b then buffer_error c else c"
  let ?st = "if BH_Req \<in> b_state b then insert BH_Req (b_state b) - {BH_Write_EIO}
             else insert BH_Req (b_state b)"
  let ?b = "b\<lparr>b_state := ?st\<rparr>"
  let ?c3 = "?c2\<lparr>bufs := (bufs ?c2)(h \<mapsto> ?b)\<rparr>"
  from hook obtain k where k: "b_end_io b = Some k"
    by auto
  from b k st have s: "submit_bh dsk c WRITE h = submit_bio dsk ?c3 WRITE h"
    by (simp add: submit_bh_def Let_def)
  have b3: "bufs ?c3 h = Some ?b" and hk: "b_end_io ?b \<noteq> None"
    and st3: "BH_Lock \<in> b_state ?b" "BH_Dirty \<notin> b_state ?b"
    using hook st by simp_all
  have upd: "(bufs ?c3)(h \<mapsto> x) = (bufs c)(h \<mapsto> x)" for x
    by (simp add: buffer_error_bufs)
  from submit_bio_awaited [OF b3 hk st3, of dsk WRITE] s upd show ?thesis
    by simp
qed

lemma ll_rw_block_write_awaited:
  assumes b: "bufs c h = Some b"
    and st: "BH_Lock \<notin> b_state b" "BH_Dirty \<in> b_state b" "BH_Mapped \<in> b_state b"
  shows "\<exists>c' b'. ll_rw_block dsk c WRITE [h] = Inr c' \<and> bufs c' = (bufs c)(h \<mapsto> b') \<and>
           BH_Dirty \<notin> b_state b' \<and>
           (if BH_Lock \<in> b_state b'
            then b_io b' = Some (io_ok dsk WRITE h) \<and> b_end_io b' \<noteq> None
            else (BH_Uptodate \<in> b_state b') = io_ok dsk WRITE h)"
proof -
  let ?b1 = "b\<lparr>b_state := insert BH_Lock (b_state b), b_count := b_count b + 1,
               b_end_io := Some END_BUFFER_WRITE_SYNC\<rparr>"
  let ?b2 = "?b1\<lparr>b_state := b_state ?b1 - {BH_Dirty}\<rparr>"
  let ?c1 = "c\<lparr>bufs := (bufs c)(h \<mapsto> ?b2)\<rparr>"
  from b st have one: "ll_rw_block_one dsk c WRITE h = submit_bh dsk ?c1 WRITE h"
    by (simp add: ll_rw_block_one_def Let_def)
  have b2: "bufs ?c1 h = Some ?b2" and hk: "b_end_io ?b2 \<noteq> None"
    and st2: "BH_Lock \<in> b_state ?b2" "BH_Dirty \<notin> b_state ?b2" "BH_Mapped \<in> b_state ?b2"
    using st by simp_all
  from submit_bh_awaited [OF b2 hk st2, of dsk] obtain c' b' where
    "submit_bh dsk ?c1 WRITE h = Inr c'" "bufs c' = (bufs ?c1)(h \<mapsto> b')"
    "BH_Dirty \<notin> b_state b'"
    "if BH_Lock \<in> b_state b'
     then b_io b' = Some (io_ok dsk WRITE h) \<and> b_end_io b' \<noteq> None
     else (BH_Uptodate \<in> b_state b') = io_ok dsk WRITE h"
    by blast
  with one show ?thesis
    by (intro exI [of _ c'] exI [of _ b']) simp
qed

lemma fsync_write_one_awaited:
  assumes b: "bufs c h = Some b" and d: "BH_Dirty \<in> b_state b" and ok: "drainable c h"
  shows "\<exists>c'. fsync_write_one dsk c h = Returns c' \<and>
           (\<forall>k. k \<noteq> h \<longrightarrow> bufs c' k = bufs c k) \<and> awaited c' h (io_ok dsk WRITE h)"
proof -
  let ?b1 = "b\<lparr>b_count := b_count b + 1\<rparr>"
  let ?c1 = "c\<lparr>bufs := (bufs c)(h \<mapsto> ?b1)\<rparr>"
  from b have g: "get_bh c h = Inr ?c1"
    by (rule get_bh_Some)
  from b d ok have m: "BH_Mapped \<in> b_state b"
    and io: "BH_Lock \<in> b_state ?b1 \<longrightarrow> b_io ?b1 = Some (the (b_io b)) \<and> b_end_io ?b1 \<noteq> None"
    by (auto simp: drainable_def)
  have b1: "bufs ?c1 h = Some ?b1"
    by simp
  from wait_on_buffer_Returns [OF b1 io] obtain c2 b2 where
    w: "wait_on_buffer ?c1 h = Returns c2" and c2: "bufs c2 = (bufs ?c1)(h \<mapsto> b2)"
    and p2: "BH_Lock \<notin> b_state b2" "(BH_Dirty \<in> b_state b2) = (BH_Dirty \<in> b_state ?b1)"
            "(BH_Mapped \<in> b_state b2) = (BH_Mapped \<in> b_state ?b1)"
    by blast
  from c2 have b2: "bufs c2 h = Some b2"
    by simp
  from p2 d m have st2: "BH_Lock \<notin> b_state b2" "BH_Dirty \<in> b_state b2" "BH_Mapped \<in> b_state b2"
    by simp_all
  from ll_rw_block_write_awaited [OF b2 st2, of dsk] obtain c3 b3 where
    l: "ll_rw_block dsk c2 WRITE [h] = Inr c3" and c3: "bufs c3 = (bufs c2)(h \<mapsto> b3)"
    and p3: "BH_Dirty \<notin> b_state b3"
       "if BH_Lock \<in> b_state b3
        then b_io b3 = Some (io_ok dsk WRITE h) \<and> b_end_io b3 \<noteq> None
        else (BH_Uptodate \<in> b_state b3) = io_ok dsk WRITE h"
    by blast
  from c3 have b3: "bufs c3 h = Some b3"
    by simp
  from brelse_Some [OF b3] obtain c4 n where
    r: "brelse c3 h = Inr c4" and c4: "bufs c4 = (bufs c3)(h \<mapsto> b3\<lparr>b_count := n\<rparr>)"
    by blast
  from g w l r have "fsync_write_one dsk c h = Returns c4"
    by (simp add: fsync_write_one_def)
  moreover from c4 c3 c2 have "\<forall>k. k \<noteq> h \<longrightarrow> bufs c4 k = bufs c k"
    by simp
  moreover from c4 p3 have "awaited c4 h (io_ok dsk WRITE h)"
    by (simp add: awaited_def)
  ultimately show ?thesis
    by blast
qed

lemma fsync_wait_one_drained:
  assumes a: "awaited c h ok"
  shows "\<exists>c'. fsync_wait_one c h err = Returns (if ok then err else - EIO, c') \<and>
           (\<forall>k. k \<noteq> h \<longrightarrow> bufs c' k = bufs c k) \<and> drained c' h ok"
proof -
  from a obtain b where b: "bufs c h = Some b" and nd: "BH_Dirty \<notin> b_state b"
    and q: "if BH_Lock \<in> b_state b then b_io b = Some ok \<and> b_end_io b \<noteq> None
            else (BH_Uptodate \<in> b_state b) = ok"
    by (auto simp: awaited_def split: option.splits)
  let ?b1 = "b\<lparr>b_count := b_count b + 1\<rparr>"
  let ?c1 = "c\<lparr>bufs := (bufs c)(h \<mapsto> ?b1)\<rparr>"
  from b have g: "get_bh c h = Inr ?c1"
    by (rule get_bh_Some)
  have b1: "bufs ?c1 h = Some ?b1"
    by simp
  from q have io: "BH_Lock \<in> b_state ?b1 \<longrightarrow> b_io ?b1 = Some ok \<and> b_end_io ?b1 \<noteq> None"
    by (simp split: if_splits)
  from wait_on_buffer_Returns [OF b1 io] obtain c2 b2 where
    w: "wait_on_buffer ?c1 h = Returns c2" and c2: "bufs c2 = (bufs ?c1)(h \<mapsto> b2)"
    and p2: "BH_Lock \<notin> b_state b2" "(BH_Dirty \<in> b_state b2) = (BH_Dirty \<in> b_state ?b1)"
            "BH_Lock \<in> b_state ?b1 \<longrightarrow> (BH_Uptodate \<in> b_state b2) = ok"
            "BH_Lock \<notin> b_state ?b1 \<longrightarrow> b2 = ?b1"
    by blast
  from c2 have b2: "bufs c2 h = Some b2"
    by simp
  from p2 q have up: "(BH_Uptodate \<in> b_state b2) = ok"
    by (cases "BH_Lock \<in> b_state b") auto
  from brelse_Some [OF b2] obtain c3 n where
    r: "brelse c2 h = Inr c3" and c3: "bufs c3 = (bufs c2)(h \<mapsto> b2\<lparr>b_count := n\<rparr>)"
    by blast
  from g w b2 r up have "fsync_wait_one c h err = Returns (if ok then err else - EIO, c3)"
    by (simp add: fsync_wait_one_def)
  moreover from c3 c2 have "\<forall>k. k \<noteq> h \<longrightarrow> bufs c3 k = bufs c k"
    by simp
  moreover from c3 p2 nd up have "drained c3 h ok"
    by (simp add: drained_def)
  ultimately show ?thesis
    by blast
qed


lemma locked_awaited:
  assumes "drainable c h" and "\<not> buffer_dirty c h" and "buffer_locked c h"
  shows "awaited c h (io_succeeds dsk c h)"
  using assms
  by (auto simp: drainable_def buffer_dirty_def buffer_locked_def awaited_def io_succeeds_def
           split: option.splits)

lemma fsync_queue_writes_awaited:
  assumes "distinct list" and "set list \<inter> set tmp = {}" and "distinct tmp"
    and "\<forall>h\<in>set list. drainable c h"
    and "\<forall>h\<in>set tmp. awaited c h (ok h)"
    and "\<forall>h\<in>set list. ok h = io_succeeds dsk c h"
  shows "\<exists>tmp' c'. fsync_queue_writes dsk list tmp c = Returns (tmp', c') \<and> distinct tmp' \<and>
           set tmp' = set tmp \<union> {h \<in> set list. buffer_dirty c h \<or> buffer_locked c h} \<and>
           (\<forall>h\<in>set tmp'. awaited c' h (ok h)) \<and>
           (\<forall>k. k \<notin> set tmp' \<longrightarrow> bufs c' k = bufs c k)"
  using assms
proof (induction list arbitrary: tmp c)
  case Nil
  then show ?case by simp
next
  case (Cons h rest)
  from Cons.prems have dr: "drainable c h" and hr: "h \<notin> set rest" and ht: "h \<notin> set tmp"
    and okh: "ok h = io_succeeds dsk c h"
    by auto
  from dr obtain b where b: "bufs c h = Some b"
    by (auto simp: drainable_def split: option.splits)
  show ?case
  proof (cases "buffer_dirty c h \<or> buffer_locked c h")
    case False
    with b have skip: "fsync_queue_writes dsk (h # rest) tmp c = fsync_queue_writes dsk rest tmp c"
      by (simp add: buffer_dirty_def buffer_locked_def)
    from Cons.prems have
      "\<exists>tmp' c'. fsync_queue_writes dsk rest tmp c = Returns (tmp', c') \<and> distinct tmp' \<and>
           set tmp' = set tmp \<union> {h \<in> set rest. buffer_dirty c h \<or> buffer_locked c h} \<and>
           (\<forall>h\<in>set tmp'. awaited c' h (ok h)) \<and>
           (\<forall>k. k \<notin> set tmp' \<longrightarrow> bufs c' k = bufs c k)"
      by (intro Cons.IH) auto
    with skip False show ?thesis
      by auto
  next
    case True
    have "\<exists>c1. fsync_queue_writes dsk (h # rest) tmp c
                 = fsync_queue_writes dsk rest (h # tmp) c1 \<and>
               (\<forall>k. k \<noteq> h \<longrightarrow> bufs c1 k = bufs c k) \<and> awaited c1 h (ok h)"
    proof (cases "buffer_dirty c h")
      case True
      with b have d: "BH_Dirty \<in> b_state b"
        by (simp add: buffer_dirty_def)
      from fsync_write_one_awaited [OF b d dr, of dsk] obtain c1 where
        w: "fsync_write_one dsk c h = Returns c1"
        and f: "\<forall>k. k \<noteq> h \<longrightarrow> bufs c1 k = bufs c k" and a: "awaited c1 h (io_ok dsk WRITE h)"
        by blast
      from b d okh have "ok h = io_ok dsk WRITE h"
        by (simp add: io_succeeds_def)
      with b d w f a show ?thesis
        by (intro exI [of _ c1]) simp
    next
      case False
      with True have l: "buffer_locked c h"
        by simp
      from locked_awaited [OF dr False l, of dsk] okh have "awaited c h (ok h)"
        by simp
      with b False l show ?thesis
        by (intro exI [of _ c]) (simp add: buffer_dirty_def buffer_locked_def)
    qed
    then obtain c1 where
      step: "fsync_queue_writes dsk (h # rest) tmp c = fsync_queue_writes dsk rest (h # tmp) c1"
      and f: "\<forall>k. k \<noteq> h \<longrightarrow> bufs c1 k = bufs c k" and a: "awaited c1 h (ok h)"
      by blast
    from f hr have same: "\<forall>k\<in>set rest. bufs c1 k = bufs c k"
      by auto
    from f ht have samet: "\<forall>k\<in>set tmp. bufs c1 k = bufs c k"
      by auto
    have "\<exists>tmp' c'. fsync_queue_writes dsk rest (h # tmp) c1 = Returns (tmp', c') \<and>
           distinct tmp' \<and>
           set tmp' = set (h # tmp) \<union> {h \<in> set rest. buffer_dirty c1 h \<or> buffer_locked c1 h} \<and>
           (\<forall>h\<in>set tmp'. awaited c' h (ok h)) \<and>
           (\<forall>k. k \<notin> set tmp' \<longrightarrow> bufs c' k = bufs c1 k)"
    proof (intro Cons.IH)
      from Cons.prems(1) show "distinct rest"
        by simp
      from Cons.prems(1,2) show "set rest \<inter> set (h # tmp) = {}"
        by auto
      from Cons.prems(3) ht show "distinct (h # tmp)"
        by simp
      from Cons.prems(4) same show "\<forall>h\<in>set rest. drainable c1 h"
        by (simp add: drainable_def)
      from Cons.prems(5) samet a show "\<forall>k\<in>set (h # tmp). awaited c1 k (ok k)"
        by (simp add: awaited_def)
      from Cons.prems(6) same show "\<forall>h\<in>set rest. ok h = io_succeeds dsk c1 h"
        by (simp add: io_succeeds_def)
    qed
    then obtain tmp' c' where
      r: "fsync_queue_writes dsk rest (h # tmp) c1 = Returns (tmp', c')" "distinct tmp'"
      and s: "set tmp' = set (h # tmp) \<union>
                {h \<in> set rest. buffer_dirty c1 h \<or> buffer_locked c1 h}"
      and aw: "\<forall>h\<in>set tmp'. awaited c' h (ok h)"
      and fr: "\<forall>k. k \<notin> set tmp' \<longrightarrow> bufs c' k = bufs c1 k"
      by blast
    from same have "{k \<in> set rest. buffer_dirty c1 k \<or> buffer_locked c1 k}
        = {k \<in> set rest. buffer_dirty c k \<or> buffer_locked c k}"
      by (auto simp: buffer_dirty_def buffer_locked_def)
    with s True have s': "set tmp' = set tmp \<union>
        {k \<in> set (h # rest). buffer_dirty c k \<or> buffer_locked c k}"
      by auto
    from s have "h \<in> set tmp'"
      by simp
    with fr f have fr': "\<forall>k. k \<notin> set tmp' \<longrightarrow> bufs c' k = bufs c k"
      by metis
    from step r s' aw fr' show ?thesis
      by simp
  qed
qed

lemma fsync_wait_all_drained:
  assumes "distinct hs" and "\<forall>h\<in>set hs. awaited c h (ok h)"
  shows "\<exists>c'. fsync_wait_all hs err c
              = Returns (if \<forall>h\<in>set hs. ok h then err else - EIO, c') \<and>
           (\<forall>h\<in>set hs. drained c' h (ok h)) \<and>
           (\<forall>k. k \<notin> set hs \<longrightarrow> bufs c' k = bufs c k)"
  using assms
proof (induction hs arbitrary: err c)
  case Nil
  then show ?case by simp
next
  case (Cons h rest)
  from Cons.prems have a: "awaited c h (ok h)" and hr: "h \<notin> set rest"
    by simp_all
  let ?e1 = "if ok h then err else - EIO"
  from fsync_wait_one_drained [OF a, of err] obtain c1 where
    w: "fsync_wait_one c h err = Returns (?e1, c1)"
    and f: "\<forall>k. k \<noteq> h \<longrightarrow> bufs c1 k = bufs c k" and d: "drained c1 h (ok h)"
    by blast
  from f hr have same: "\<forall>k\<in>set rest. bufs c1 k = bufs c k"
    by auto
  with Cons.prems(2) have aw: "\<forall>k\<in>set rest. awaited c1 k (ok k)"
    by (simp add: awaited_def)
  from Cons.prems(1) have "distinct rest"
    by simp
  from this aw have
    "\<exists>c'. fsync_wait_all rest ?e1 c1
              = Returns (if \<forall>h\<in>set rest. ok h then ?e1 else - EIO, c') \<and>
           (\<forall>h\<in>set rest. drained c' h (ok h)) \<and>
           (\<forall>k. k \<notin> set rest \<longrightarrow> bufs c' k = bufs c1 k)"
    by (rule Cons.IH)
  then obtain c' where
    r: "fsync_wait_all rest ?e1 c1 = Returns (if \<forall>h\<in>set rest. ok h then ?e1 else - EIO, c')"
    and dr: "\<forall>h\<in>set rest. drained c' h (ok h)"
    and fr: "\<forall>k. k \<notin> set rest \<longrightarrow> bufs c' k = bufs c1 k"
    by blast
  from fr hr d have "drained c' h (ok h)"
    by (simp add: drained_def)
  moreover from fr f have "\<forall>k. k \<notin> set (h # rest) \<longrightarrow> bufs c' k = bufs c k"
    by simp
  moreover from w r have "fsync_wait_all (h # rest) err c
      = Returns (if \<forall>h\<in>set (h # rest). ok h then err else - EIO, c')"
    by simp
  ultimately show ?case
    using dr by (intro exI [of _ c']) simp
qed

lemma osync_buffers_list_empty:
  "osync_buffers_list c [] = Returns (0, c)"
  by (subst osync_buffers_list_def, subst osync_repeat.simps) simp

text \<open>
  Claim C6, as stated, at one input. The list holds one buffer, which is clean, and locked by
  a write in flight that fails. No buffer of the list is dirty at entry, so no buffer that was
  dirty at entry meets an I/O error; still the drain waits for the locked buffer, finds it not
  uptodate, and returns \<open>-EIO\<close>.
\<close>

theorem fsync_locked_clean_counterexample:
  "\<not> buffer_dirty (example_cache [(1, example_bh_io {BH_Uptodate, BH_Mapped} 0 False)] []) 1 \<and>
   fsync_buffers_list (example_disk [] [])
       (example_cache [(1, example_bh_io {BH_Uptodate, BH_Mapped} 0 False)] []) [1]
     = Returns (- EIO,
         example_cache
           [(1, (example_bh {BH_Write_EIO, BH_Mapped} 0)
                  \<lparr>b_count := 0, b_end_io := Some END_BUFFER_WRITE_SYNC\<rparr>)] [])"
  by (simp add: fsync_buffers_list_def fsync_wait_one_def wait_on_buffer_def
        end_bio_bh_io_sync_def end_buffer_write_sync_def unlock_buffer_def put_bh_def
        get_bh_def brelse_def buffer_dirty_def osync_buffers_list_empty
        example_cache_def example_bh_io_def example_bh_def Let_def EIO_def
        insert_Diff_if)

text \<open>
  Claim C6, amended. The list holds distinct buffers, every dirty one mapped and every locked
  one locked by I/O in flight, and no other thread runs. Then \<open>fsync_buffers_list\<close> returns,
  whether the device completes a write at once or only when it is waited for. Every buffer of
  the list that was dirty or locked at entry is clean and unlocked afterwards, and uptodate
  exactly if its I/O succeeded: the write that the drain submitted for a buffer dirty at entry,
  the I/O in flight for a buffer clean and locked at entry. A buffer that was clean and
  unlocked is as it was. The result is 0 when all this I/O succeeded and \<open>-EIO\<close> when some
  of it failed.
\<close>

theorem fsync_drain:
  assumes dist: "distinct list" and dr: "\<forall>h\<in>set list. drainable c h"
  shows "\<exists>c'. fsync_buffers_list dsk c list
              = Returns (if \<forall>h\<in>set list. buffer_dirty c h \<or> buffer_locked c h
                                \<longrightarrow> io_succeeds dsk c h
                         then 0 else - EIO, c') \<and>
           (\<forall>h\<in>set list. if buffer_dirty c h \<or> buffer_locked c h
                          then drained c' h (io_succeeds dsk c h)
                          else bufs c' h = bufs c h)"
proof -
  let ?ok = "io_succeeds dsk c"
  have "\<exists>tmp' c'. fsync_queue_writes dsk list [] c = Returns (tmp', c') \<and> distinct tmp' \<and>
           set tmp' = set [] \<union> {h \<in> set list. buffer_dirty c h \<or> buffer_locked c h} \<and>
           (\<forall>h\<in>set tmp'. awaited c' h (?ok h)) \<and>
           (\<forall>k. k \<notin> set tmp' \<longrightarrow> bufs c' k = bufs c k)"
    using dist dr by (intro fsync_queue_writes_awaited) simp_all
  then obtain tmp c1 where
    p1: "fsync_queue_writes dsk list [] c = Returns (tmp, c1)" and dt: "distinct tmp"
    and st: "set tmp = {h \<in> set list. buffer_dirty c h \<or> buffer_locked c h}"
    and aw: "\<forall>h\<in>set tmp. awaited c1 h (?ok h)"
    and f1: "\<forall>k. k \<notin> set tmp \<longrightarrow> bufs c1 k = bufs c k"
    by auto
  from dt aw have
    "\<exists>c'. fsync_wait_all (rev tmp) 0 c1
              = Returns (if \<forall>h\<in>set (rev tmp). ?ok h then 0 else - EIO, c') \<and>
           (\<forall>h\<in>set (rev tmp). drained c' h (?ok h)) \<and>
           (\<forall>k. k \<notin> set (rev tmp) \<longrightarrow> bufs c' k = bufs c1 k)"
    by (intro fsync_wait_all_drained) simp_all
  then obtain c2 where
    p2: "fsync_wait_all (rev tmp) 0 c1 = Returns (if \<forall>h\<in>set tmp. ?ok h then 0 else - EIO, c2)"
    and d2: "\<forall>h\<in>set tmp. drained c2 h (?ok h)"
    and f2: "\<forall>k. k \<notin> set tmp \<longrightarrow> bufs c2 k = bufs c1 k"
    by auto
  from st have all: "(\<forall>h\<in>set tmp. ?ok h)
      = (\<forall>h\<in>set list. buffer_dirty c h \<or> buffer_locked c h \<longrightarrow> ?ok h)"
    by auto
  from p1 p2 have "fsync_buffers_list dsk c list
      = Returns (if \<forall>h\<in>set tmp. ?ok h then 0 else - EIO, c2)"
    by (simp add: fsync_buffers_list_def osync_buffers_list_empty)
  with all have res: "fsync_buffers_list dsk c list
      = Returns (if \<forall>h\<in>set list. buffer_dirty c h \<or> buffer_locked c h \<longrightarrow> ?ok h
                 then 0 else - EIO, c2)"
    by simp
  have "if buffer_dirty c h \<or> buffer_locked c h then drained c2 h (?ok h)
        else bufs c2 h = bufs c h" if "h \<in> set list" for h
  proof (cases "buffer_dirty c h \<or> buffer_locked c h")
    case True
    with that st have "h \<in> set tmp"
      by simp
    with d2 True show ?thesis
      by simp
  next
    case False
    with st have "h \<notin> set tmp"
      by simp
    with f1 f2 False show ?thesis
      by simp
  qed
  with res show ?thesis
    by blast
qed

theorem fsync_drain_witness:
  "(case fsync_buffers_list (example_disk [2] [1]) example_fsync_cache [1, 2, 3, 4] of
      Returns (err, c') \<Rightarrow>
        err = - EIO \<and> drained c' 1 True \<and> drained c' 2 False \<and>
        bufs c' 3 = bufs example_fsync_cache 3 \<and> drained c' 4 True
    | Stops f \<Rightarrow> False
    | Sleeps \<Rightarrow> False) \<and>
   (case fsync_buffers_list (example_disk [] []) example_fsync_cache [1, 2, 3, 4] of
      Returns (err, c') \<Rightarrow> err = 0 \<and> drained c' 1 True \<and> drained c' 2 True
    | Stops f \<Rightarrow> False
    | Sleeps \<Rightarrow> False)"
proof -
  let ?C = example_fsync_cache
  let ?D = "example_disk [2] [1]" and ?E = "example_disk [] []"
  have dist: "distinct [1, 2, 3, 4 :: nat]"
    by simp
  have dr: "\<forall>h\<in>set [1, 2, 3, 4]. drainable ?C h"
    by (simp add: drainable_def example_fsync_cache_def example_cache_def example_bh_def
          example_bh_io_def)
  have dirty: "buffer_dirty ?C 1" "buffer_dirty ?C 2" "\<not> buffer_dirty ?C 3"
    "\<not> buffer_dirty ?C 4"
    by (simp_all add: buffer_dirty_def example_fsync_cache_def example_cache_def example_bh_def
          example_bh_io_def)
  have locked: "\<not> buffer_locked ?C 3" "buffer_locked ?C 4"
    by (simp_all add: buffer_locked_def example_fsync_cache_def example_cache_def example_bh_def
          example_bh_io_def)
  have io: "io_succeeds ?D ?C 1" "\<not> io_succeeds ?D ?C 2" "io_succeeds ?D ?C 4"
    "io_succeeds ?E ?C 1" "io_succeeds ?E ?C 2" "io_succeeds ?E ?C 4"
    by (simp_all add: io_succeeds_def example_disk_def example_fsync_cache_def example_cache_def
          example_bh_def example_bh_io_def)
  from fsync_drain [OF dist dr, of ?D] dirty locked io obtain c1 where
    "fsync_buffers_list ?D ?C [1, 2, 3, 4] = Returns (- EIO, c1)"
    "drained c1 1 True" "drained c1 2 False" "bufs c1 3 = bufs ?C 3" "drained c1 4 True"
    by auto
  moreover from fsync_drain [OF dist dr, of ?E] dirty locked io obtain c2 where
    "fsync_buffers_list ?E ?C [1, 2, 3, 4] = Returns (0, c2)"
    "drained c2 1 True" "drained c2 2 True"
    by auto
  ultimately show ?thesis
    by simp
qed

end
